theory Spec2Isabelle
  imports Complex_Main "HOL-Library.Sublist"
begin

section \<open>Numeric conventions\<close>

text \<open>
  The allocation core of ATLAS (\<^verbatim>\<open>ras_module.py\<close>, \<^verbatim>\<open>tiv_module.py\<close>) computes with
  numpy arrays of 64-bit floats and of integers. The embedding reads every float as an
  exact real number and every numpy integer as an unbounded \<^typ>\<open>int\<close>: rounding error,
  overflow, infinities and NaN are outside the model. A one-dimensional array is a list,
  a two-dimensional array is the list of its rows.
\<close>

type_synonym 'a matrix = "'a list list"

text \<open>\<^verbatim>\<open>X.shape == (nR, nC)\<close>: the list of rows is rectangular.\<close>

definition mat_shape :: "nat \<Rightarrow> nat \<Rightarrow> 'a matrix \<Rightarrow> bool" where
  "mat_shape nR nC X \<longleftrightarrow> length X = nR \<and> list_all (\<lambda>row. length row = nC) X"

text \<open>
  \<^verbatim>\<open>np.rint\<close> and Python's \<^verbatim>\<open>round\<close> on a float: the nearest integer, a tie going to
  the even neighbour.
\<close>

definition rint :: "real \<Rightarrow> int" where
  "rint x =
     (let f = \<lfloor>x\<rfloor>; d = x - of_int f
      in if d < 1 / 2 then f else if 1 / 2 < d then f + 1 else if even f then f else f + 1)"

text \<open>\<^verbatim>\<open>M.sum(axis=1)\<close> and \<^verbatim>\<open>M.sum(axis=0)\<close> of an array with \<^verbatim>\<open>nC\<close> columns.\<close>

definition row_sums :: "('a::monoid_add) matrix \<Rightarrow> 'a list" where
  "row_sums M = map sum_list M"

definition col_sums :: "nat \<Rightarrow> ('a::monoid_add) matrix \<Rightarrow> 'a list" where
  "col_sums nC M = map (\<lambda>j. sum_list (map (\<lambda>row. row ! j) M)) [0..<nC]"

section \<open>Joint exact rounding to cents (\<^verbatim>\<open>ras_module.round_matrix_exact_cents\<close>)\<close>

text \<open>
  The state of the correction loop: the integer matrix \<^verbatim>\<open>Xc\<close> and the two deficit
  vectors \<^verbatim>\<open>row_def\<close>, \<^verbatim>\<open>col_def\<close>, all three updated in place by the source.
\<close>

record round_state =
  Xc :: "int matrix"
  row_def :: "int list"
  col_def :: "int list"

text \<open>
  The body of \<^verbatim>\<open>for i, j in idx\<close> before the \<^verbatim>\<open>break\<close> test:
  \<^verbatim>\<open>
    if row_def[i] > 0 and col_def[j] > 0:
        take = min(row_def[i], col_def[j])
        Xc[i, j] += take
        row_def[i] -= take
        col_def[j] -= take
  \<close>
\<close>

definition cell_step :: "nat \<times> nat \<Rightarrow> round_state \<Rightarrow> round_state" where
  "cell_step ij s =
     (case ij of (i, j) \<Rightarrow>
        if row_def s ! i > 0 \<and> col_def s ! j > 0 then
          let take = min (row_def s ! i) (col_def s ! j)
          in \<lparr> Xc = (Xc s)[i := (Xc s ! i)[j := Xc s ! i ! j + take]],
               row_def = (row_def s)[i := row_def s ! i - take],
               col_def = (col_def s)[j := col_def s ! j - take] \<rparr>
        else s)"

text \<open>
  The loop over \<^verbatim>\<open>idx\<close>, with its early exit
  \<^verbatim>\<open>if row_def.sum() == 0 and col_def.sum() == 0: break\<close> after each cell.
\<close>

fun greedy_pass :: "(nat \<times> nat) list \<Rightarrow> round_state \<Rightarrow> round_state" where
  "greedy_pass [] s = s"
| "greedy_pass (ij # rest) s =
     (let s' = cell_step ij s
      in if sum_list (row_def s') = 0 \<and> sum_list (col_def s') = 0 then s'
         else greedy_pass rest s')"

text \<open>
  \<^verbatim>\<open>idx = [(i, j) for i in range(nR) for j in range(nC)]\<close>, then
  \<^verbatim>\<open>idx.sort(key=lambda ij: R[ij], reverse=True)\<close>. Python's sort is stable, also with
  \<^verbatim>\<open>reverse=True\<close>: cells of equal remainder keep their row-major order, as
  \<^const>\<open>sort_key\<close> on the negated key does.
\<close>

definition all_cells :: "nat \<Rightarrow> nat \<Rightarrow> (nat \<times> nat) list" where
  "all_cells nR nC = concat (map (\<lambda>i. map (\<lambda>j. (i, j)) [0..<nC]) [0..<nR])"

definition cell_order :: "nat \<Rightarrow> nat \<Rightarrow> real matrix \<Rightarrow> (nat \<times> nat) list" where
  "cell_order nR nC R = sort_key (\<lambda>ij. - (R ! fst ij ! snd ij)) (all_cells nR nC)"

definition cent_targets :: "real list \<Rightarrow> int list" where
  "cent_targets targets = map (\<lambda>t. rint (t * 100)) targets"

text \<open>\<^verbatim>\<open>np.floor(np.asarray(X, float) * 100.0).astype(int)\<close>.\<close>

definition floor_cents :: "real matrix \<Rightarrow> int matrix" where
  "floor_cents X = map (map (\<lambda>x. \<lfloor>x * 100\<rfloor>)) X"

text \<open>
  The state on entry to the loop. \<^verbatim>\<open>Xc = floor(100 X)\<close>, and the deficits are the cent
  targets minus the row and column sums of \<^verbatim>\<open>Xc\<close>. The source subtracts arrays, which
  numpy allows when \<^verbatim>\<open>X.shape == (len(row_targets), len(col_targets))\<close>; the
  embedding takes \<^verbatim>\<open>nR\<close> and \<^verbatim>\<open>nC\<close> from the targets and is meant for such \<^verbatim>\<open>X\<close>.
\<close>

definition round_init :: "real matrix \<Rightarrow> real list \<Rightarrow> real list \<Rightarrow> round_state" where
  "round_init X row_targets col_targets =
     (let rT_c = cent_targets row_targets;
          cT_c = cent_targets col_targets;
          Xf = floor_cents X
      in \<lparr> Xc = Xf,
           row_def = map2 (-) rT_c (row_sums Xf),
           col_def = map2 (-) cT_c (col_sums (length col_targets) Xf) \<rparr>)"

text \<open>\<^verbatim>\<open>R = Xc_real - Xc\<close>, the fractional part of every cell in cents.\<close>

definition frac_remainders :: "real matrix \<Rightarrow> real matrix" where
  "frac_remainders X = map (map (\<lambda>x. x * 100 - of_int \<lfloor>x * 100\<rfloor>)) X"

text \<open>The state when the loop is left: \<^verbatim>\<open>Xc\<close> in cents, and what is left of the deficits.\<close>

definition round_final :: "real matrix \<Rightarrow> real list \<Rightarrow> real list \<Rightarrow> round_state" where
  "round_final X row_targets col_targets =
     greedy_pass
       (cell_order (length row_targets) (length col_targets) (frac_remainders X))
       (round_init X row_targets col_targets)"

text \<open>The returned array, \<^verbatim>\<open>Xc.astype(float) / 100.0\<close>, in dollars.\<close>

definition round_matrix_exact_cents :: "real matrix \<Rightarrow> real list \<Rightarrow> real list \<Rightarrow> real matrix" where
  "round_matrix_exact_cents X row_targets col_targets =
     map (map (\<lambda>c. real_of_int c / 100)) (Xc (round_final X row_targets col_targets))"

text \<open>
  Invariants of the correction loop, for a state over \<^verbatim>\<open>nR\<close> rows and \<^verbatim>\<open>nC\<close> columns:
  the three arrays keep their shapes; each deficit is its cent target minus the current
  row or column sum of \<^verbatim>\<open>Xc\<close>; the deficits are non-negative; both deficit sums are
  zero (the test of the early exit).
\<close>

definition shape_ok :: "nat \<Rightarrow> nat \<Rightarrow> round_state \<Rightarrow> bool" where
  "shape_ok nR nC s \<longleftrightarrow>
     mat_shape nR nC (Xc s) \<and> length (row_def s) = nR \<and> length (col_def s) = nC"

definition rows_ok :: "int list \<Rightarrow> round_state \<Rightarrow> bool" where
  "rows_ok rT s \<longleftrightarrow> (\<forall>i<length rT. sum_list (Xc s ! i) + row_def s ! i = rT ! i)"

definition cols_ok :: "int list \<Rightarrow> round_state \<Rightarrow> bool" where
  "cols_ok cT s \<longleftrightarrow>
     (\<forall>j<length cT. sum_list (map (\<lambda>row. row ! j) (Xc s)) + col_def s ! j = cT ! j)"

definition defs_nonneg :: "round_state \<Rightarrow> bool" where
  "defs_nonneg s \<longleftrightarrow> (\<forall>d\<in>set (row_def s). 0 \<le> d) \<and> (\<forall>d\<in>set (col_def s). 0 \<le> d)"

definition round_inv :: "int list \<Rightarrow> int list \<Rightarrow> round_state \<Rightarrow> bool" where
  "round_inv rT cT s \<longleftrightarrow>
     shape_ok (length rT) (length cT) s \<and> rows_ok rT s \<and> cols_ok cT s"

definition all_zero :: "round_state \<Rightarrow> bool" where
  "all_zero s \<longleftrightarrow> sum_list (row_def s) = 0 \<and> sum_list (col_def s) = 0"

section \<open>Exceptions\<close>

text \<open>
  The exceptions the modelled functions raise, as values. \<^verbatim>\<open>ValueError\<close> is the one the
  source raises itself, with its message. \<^verbatim>\<open>AssertionError\<close> is what a failed \<^verbatim>\<open>assert\<close>
  raises. The others come from numpy and pandas, and their messages are not modelled:
  \<^verbatim>\<open>BroadcastValueError\<close> is numpy's \<^verbatim>\<open>ValueError\<close> for operand shapes that do not
  broadcast; \<^verbatim>\<open>UFuncTypeError\<close> is numpy's refusal to store a float result in an integer
  array in place; \<^verbatim>\<open>AttributeError\<close> and \<^verbatim>\<open>TypeError\<close> are what \<^verbatim>\<open>.str\<close> and
  \<^verbatim>\<open>pd.to_numeric\<close> raise on a \<^verbatim>\<open>DataFrame\<close> where a column was expected.
\<close>

datatype error =
    ValueError string
  | AssertionError
  | BroadcastValueError
  | UFuncTypeError
  | AttributeError
  | TypeError

section \<open>Iterative proportional fitting (\<^verbatim>\<open>ras_module.ipf\<close>)\<close>

text \<open>\<^verbatim>\<open>rs[rs == 0] = 1.0\<close>: a zero sum is replaced by one before dividing.\<close>

definition unit_if_zero :: "real \<Rightarrow> real" where
  "unit_if_zero s = (if s = 0 then 1 else s)"

text \<open>
  \<^verbatim>\<open>rs = X.sum(axis=1, keepdims=True); rs[rs == 0] = 1.0; X *= (rT / rs.squeeze())[:, None]\<close>:
  row \<^verbatim>\<open>i\<close> is multiplied by \<^verbatim>\<open>rT[i] / rs[i]\<close>.
\<close>

definition row_scale :: "real list \<Rightarrow> real matrix \<Rightarrow> real matrix" where
  "row_scale rT X =
     (let rs = map unit_if_zero (row_sums X);
          f = map2 (/) rT rs
      in map2 (\<lambda>row fi. map (\<lambda>x. x * fi) row) X f)"

text \<open>
  \<^verbatim>\<open>cs = X.sum(axis=0, keepdims=True); cs[cs == 0] = 1.0; X *= (cT / cs.squeeze())[None, :]\<close>:
  column \<^verbatim>\<open>j\<close> is multiplied by \<^verbatim>\<open>cT[j] / cs[j]\<close>.
\<close>

definition col_scale :: "real list \<Rightarrow> real matrix \<Rightarrow> real matrix" where
  "col_scale cT X =
     (let cs = map unit_if_zero (col_sums (length cT) X);
          f = map2 (/) cT cs
      in map (\<lambda>row. map2 (*) row f) X)"

text \<open>
  \<^verbatim>\<open>np.allclose(a, b, atol=tol)\<close> with numpy's default \<^verbatim>\<open>rtol = 1e-05\<close>:
  \<^verbatim>\<open>|a - b| <= atol + rtol * |b|\<close> at every index.
\<close>

definition allclose :: "real list \<Rightarrow> real list \<Rightarrow> real \<Rightarrow> bool" where
  "allclose a b atol = list_all2 (\<lambda>x y. \<bar>x - y\<bar> \<le> atol + (1 / 10 ^ 5) * \<bar>y\<bar>) a b"

text \<open>The test that ends the loop early.\<close>

definition converged :: "real list \<Rightarrow> real list \<Rightarrow> real \<Rightarrow> real matrix \<Rightarrow> bool" where
  "converged rT cT tol X \<longleftrightarrow>
     allclose (row_sums X) rT tol \<and> allclose (col_sums (length cT) X) cT tol"

text \<open>One pass of the loop body before its test: rows, then columns.\<close>

definition ipf_step :: "real list \<Rightarrow> real list \<Rightarrow> real matrix \<Rightarrow> real matrix" where
  "ipf_step rT cT X = col_scale cT (row_scale rT X)"

text \<open>
  \<^verbatim>\<open>for _ in range(max_iter)\<close>: the first argument counts the iterations that are left.
  The loop ends by \<^verbatim>\<open>break\<close> when the test holds, or when the range is used up; either
  way the current \<^verbatim>\<open>X\<close> is what \<^verbatim>\<open>ipf\<close> returns.
\<close>

fun ipf_loop :: "nat \<Rightarrow> real list \<Rightarrow> real list \<Rightarrow> real \<Rightarrow> real matrix \<Rightarrow> real matrix" where
  "ipf_loop 0 rT cT tol X = X"
| "ipf_loop (Suc n) rT cT tol X =
     (let X' = ipf_step rT cT X
      in if converged rT cT tol X' then X' else ipf_loop n rT cT tol X')"

text \<open>
  The seed built when none is given:
  \<^verbatim>\<open>np.outer((rT > 0).astype(float), (cT > 0).astype(float))\<close>, replaced by
  \<^verbatim>\<open>np.ones((nR, nC))\<close> when it sums to zero.
\<close>

definition outer :: "real list \<Rightarrow> real list \<Rightarrow> real matrix" where
  "outer u v = map (\<lambda>a. map (\<lambda>b. a * b) v) u"

definition positive_ind :: "real \<Rightarrow> real" where
  "positive_ind t = (if t > 0 then 1 else 0)"

definition default_seed :: "real list \<Rightarrow> real list \<Rightarrow> real matrix" where
  "default_seed rT cT =
     (let seed = outer (map positive_ind rT) (map positive_ind cT)
      in if sum_list (map sum_list seed) = 0
         then replicate (length rT) (replicate (length cT) 1)
         else seed)"

text \<open>
  A seed passed by the caller: a two-dimensional numpy array with its dtype (64-bit float
  or integer), its shape \<^verbatim>\<open>(a, b)\<close> and its rows. The shape stands beside the rows because
  an array without rows still has a column count. Arrays of another rank are outside the
  model.
\<close>

datatype ndarray = Float64 nat nat "real matrix" | Int64 nat nat "int matrix"

fun nd_rows :: "ndarray \<Rightarrow> real matrix" where
  "nd_rows (Float64 a b S) = S"
| "nd_rows (Int64 a b S) = map (map of_int) S"

text \<open>
  numpy's broadcasting of a target vector of length \<open>n\<close> against an axis of length \<open>a\<close>
  of \<^verbatim>\<open>X\<close>. In \<^verbatim>\<open>X *= (rT / rs.squeeze())[:, None]\<close> the quotient has one entry per row of
  \<^verbatim>\<open>X\<close> when \<open>n = a\<close>; a single target is repeated along the axis; every other pair of
  lengths raises, in the division or in the in-place product (whose result must have the
  shape of \<^verbatim>\<open>X\<close>). The same holds for the columns.
\<close>

definition broadcasts :: "nat \<Rightarrow> nat \<Rightarrow> bool" where
  "broadcasts n a \<longleftrightarrow> n = a \<or> n = 1"

definition broadcast_to :: "nat \<Rightarrow> real list \<Rightarrow> real list" where
  "broadcast_to a v = (if length v = a then v else replicate a (hd v))"

text \<open>
  \<^verbatim>\<open>X\<close> on entry to the loop: the copy of the seed, row-scaled and column-scaled once.
\<close>

definition ipf_start :: "real list \<Rightarrow> real list \<Rightarrow> real matrix \<Rightarrow> real matrix" where
  "ipf_start rT cT seed = col_scale cT (row_scale rT seed)"

text \<open>
  \<^verbatim>\<open>ipf(row_targets, col_targets, seed=None, max_iter=5000, tol=1e-10)\<close>.
  Without a seed the default one is used, of shape \<^verbatim>\<open>(nR, nC)\<close> and of float dtype.
  \<^verbatim>\<open>X = seed.copy()\<close> keeps the dtype and the shape of a seed that is given, and the first
  rescaling, which runs whatever \<^verbatim>\<open>max_iter\<close> is, raises on
  \<^item> an integer seed: \<^verbatim>\<open>rT / rs.squeeze()\<close> is computed first and raises numpy's
    \<^verbatim>\<open>ValueError\<close> when the two lengths differ and neither is one; otherwise the in-place
    product raises \<^verbatim>\<open>UFuncTypeError\<close>, the cast being checked before the shapes;
  \<^item> a float seed whose row count or column count does not broadcast against the
    targets.
  On the remaining seeds the targets are broadcast along the axes of the seed and the loop
  runs on them.
\<close>

definition ipf ::
  "real list \<Rightarrow> real list \<Rightarrow> ndarray option \<Rightarrow> nat \<Rightarrow> real \<Rightarrow> error + real matrix" where
  "ipf row_targets col_targets seed max_iter tol =
     (let rT = row_targets; cT = col_targets;
          nR = length rT; nC = length cT
      in case seed of
           None \<Rightarrow> Inr (ipf_loop max_iter rT cT tol (ipf_start rT cT (default_seed rT cT)))
         | Some (Int64 a b S) \<Rightarrow>
             if a = 1 \<or> broadcasts nR a then Inl UFuncTypeError
             else Inl BroadcastValueError
         | Some (Float64 a b S) \<Rightarrow>
             if broadcasts nR a \<and> broadcasts nC b
             then
               let rB = broadcast_to a rT; cB = broadcast_to b cT
               in Inr (ipf_loop max_iter rB cB tol (ipf_start rB cB S))
             else Inl BroadcastValueError)"

text \<open>The defaults of \<^verbatim>\<open>max_iter\<close> and \<^verbatim>\<open>tol\<close>.\<close>

definition default_max_iter :: nat where
  "default_max_iter = 5000"

definition default_tol :: real where
  "default_tol = 1 / 10 ^ 10"

text \<open>
  A float seed of shape \<^verbatim>\<open>(nR, nC)\<close>; the matrix the rescaling starts from, the seed's
  or the default one; element-wise non-negativity.
\<close>

definition float_seed :: "nat \<Rightarrow> nat \<Rightarrow> ndarray \<Rightarrow> bool" where
  "float_seed nR nC A =
     (case A of
        Float64 a b S \<Rightarrow> a = nR \<and> b = nC \<and> mat_shape nR nC S
      | Int64 a b S \<Rightarrow> False)"

definition seed_rows :: "real list \<Rightarrow> real list \<Rightarrow> ndarray option \<Rightarrow> real matrix" where
  "seed_rows rT cT seed = (case seed of None \<Rightarrow> default_seed rT cT | Some A \<Rightarrow> nd_rows A)"

definition mat_nonneg :: "real matrix \<Rightarrow> bool" where
  "mat_nonneg X \<longleftrightarrow> (\<forall>row\<in>set X. \<forall>x\<in>set row. 0 \<le> x)"

section \<open>Python values shared by the two modules\<close>

text \<open>
  A Python \<^verbatim>\<open>dict\<close> as the list of its items in insertion order, keys distinct.
  \<^verbatim>\<open>d[k] = v\<close> replaces the value of a key that is present, in place, and appends a new
  key; \<^verbatim>\<open>d.get(k, default)\<close> reads with a default; a dict comprehension or \<^verbatim>\<open>dict(...)\<close>
  stores its items from left to right.
\<close>

type_synonym ('k, 'v) dict = "('k \<times> 'v) list"

definition dict_get :: "('k, 'v) dict \<Rightarrow> 'k \<Rightarrow> 'v \<Rightarrow> 'v" where
  "dict_get d k dflt = (case map_of d k of None \<Rightarrow> dflt | Some v \<Rightarrow> v)"

definition dict_set :: "('k, 'v) dict \<Rightarrow> 'k \<Rightarrow> 'v \<Rightarrow> ('k, 'v) dict" where
  "dict_set d k v =
     (case map_of d k of
        None \<Rightarrow> d @ [(k, v)]
      | Some _ \<Rightarrow> map (\<lambda>kv. if fst kv = k then (k, v) else kv) d)"

definition dict_of :: "('k \<times> 'v) list \<Rightarrow> ('k, 'v) dict" where
  "dict_of items = foldl (\<lambda>d kv. dict_set d (fst kv) (snd kv)) [] items"

section \<open>Largest-remainder apportionment (\<^verbatim>\<open>tiv_module.allocate_cents_for_coverage\<close>)\<close>

text \<open>
  \<^verbatim>\<open>np.argsort(a)\<close>: the indices of \<^verbatim>\<open>a\<close> in ascending order of value. numpy's default
  sort does not promise an order among equal values; the embedding keeps them in index
  order (a stable sort). No theorem below depends on how ties fall.
\<close>

definition argsort :: "real list \<Rightarrow> nat list" where
  "argsort a = sort_key (\<lambda>i. a ! i) [0..<length a]"

text \<open>\<^verbatim>\<open>add = np.zeros(n, dtype=int); add[idx] = 1\<close> for a list of indices \<^verbatim>\<open>idx\<close>.\<close>

definition ones_at :: "nat \<Rightarrow> nat list \<Rightarrow> int list" where
  "ones_at n idx = map (\<lambda>i. if i \<in> set idx then 1 else 0) [0..<n]"

text \<open>
  \<^verbatim>\<open>allocate_cents_for_coverage(premium_total, tiv_by_loc_map, loc_list)\<close>. The result
  is the dict from location to dollars, or the \<^verbatim>\<open>AssertionError\<close> of the source's
  \<^verbatim>\<open>assert int(cents.sum()) == cents_total\<close>.
\<close>

definition allocate_cents_for_coverage ::
    "real \<Rightarrow> ('l, real) dict \<Rightarrow> 'l list \<Rightarrow> error + ('l, real) dict" where
  "allocate_cents_for_coverage premium_total tiv_by_loc_map loc_list =
     (let n = length loc_list in
      if n = 0 then Inr []
      else
        let tivs = map (\<lambda>l. dict_get tiv_by_loc_map l 0) loc_list;
            total_tiv = sum_list tivs
        in
        if premium_total \<le> 0 then Inr (dict_of (map (\<lambda>l. (l, 0)) loc_list))
        else
          let weights = (if total_tiv \<le> 0 then replicate n (1 / real n)
                         else map (\<lambda>t. t / total_tiv) tivs);
              cents_total = rint (premium_total * 100);
              raw = map (\<lambda>w. w * real_of_int cents_total) weights;
              floor = map (\<lambda>r. \<lfloor>r\<rfloor>) raw;
              rema = map2 (\<lambda>r f. r - real_of_int f) raw floor;
              remain = cents_total - sum_list floor;
              order = argsort (map uminus rema);
              add = (if remain > 0 then ones_at n (take (nat remain) order)
                     else replicate n 0);
              cents = map2 (+) floor add
          in
          if sum_list cents = cents_total
          then Inr (dict_of (zip loc_list (map (\<lambda>c. real_of_int c / 100) cents)))
          else Inl AssertionError)"

text \<open>
  The weight the source gives entity \<^verbatim>\<open>i\<close>: its share of the summed weights, or
  \<^verbatim>\<open>1 / n\<close> when they sum to zero or less.
\<close>

definition weight_share :: "real list \<Rightarrow> nat \<Rightarrow> real" where
  "weight_share tivs i =
     (if sum_list tivs \<le> 0 then 1 / real (length tivs) else tivs ! i / sum_list tivs)"

text \<open>
  Names for the parts of \<^const>\<open>allocate_cents_for_coverage\<close> that the proofs work on: the
  extra cents, the weights, and the cents before the assertion. Lemma \<open>allocate_unfold\<close>
  shows that they are the source's own expressions.
\<close>

definition lr_add :: "nat \<Rightarrow> int \<Rightarrow> real list \<Rightarrow> int list" where
  "lr_add n remain rema =
     (if remain > 0 then ones_at n (take (nat remain) (argsort (map uminus rema)))
      else replicate n 0)"

definition alloc_weights :: "nat \<Rightarrow> real list \<Rightarrow> real list" where
  "alloc_weights n tivs =
     (if sum_list tivs \<le> 0 then replicate n (1 / real n)
      else map (\<lambda>t. t / sum_list tivs) tivs)"

definition alloc_cents_n :: "nat \<Rightarrow> real list \<Rightarrow> int \<Rightarrow> int list" where
  "alloc_cents_n n tivs C =
     (let raw = map (\<lambda>w. w * real_of_int C) (alloc_weights n tivs);
          fl = map (\<lambda>r. \<lfloor>r\<rfloor>) raw;
          rema = map2 (\<lambda>r f. r - real_of_int f) raw fl
      in map2 (+) fl (lr_add n (C - sum_list fl) rema))"

definition alloc_cents :: "real list \<Rightarrow> int \<Rightarrow> int list" where
  "alloc_cents tivs C = alloc_cents_n (length tivs) tivs C"

section \<open>Strings and labels\<close>

text \<open>
  A Python \<^verbatim>\<open>str\<close> is read as a \<^typ>\<open>string\<close> whose characters are the code points below
  256; labels with other code points are outside the model.

  \<^verbatim>\<open>str.isspace\<close> on one such character: tab to carriage return, the four separators
  \<^verbatim>\<open>\x1c\<close> to \<^verbatim>\<open>\x1f\<close>, the space, \<^verbatim>\<open>\x85\<close> and the no-break space \<^verbatim>\<open>\xa0\<close>.
\<close>

definition is_space :: "char \<Rightarrow> bool" where
  "is_space c =
     (let n = (of_char c :: nat)
      in (9 \<le> n \<and> n \<le> 13) \<or> (28 \<le> n \<and> n \<le> 32) \<or> n = 133 \<or> n = 160)"

text \<open>\<^verbatim>\<open>s.strip()\<close>: leading and trailing whitespace removed.\<close>

definition strip :: "string \<Rightarrow> string" where
  "strip s = rev (dropWhile is_space (rev (dropWhile is_space s)))"

text \<open>
  \<^verbatim>\<open>s.lower()\<close>: the letters \<^verbatim>\<open>A\<close> to \<^verbatim>\<open>Z\<close> and the capital letters \<^verbatim>\<open>\xc0\<close> to \<^verbatim>\<open>\xde\<close>
  (the multiplication sign \<^verbatim>\<open>\xd7\<close> apart) move up by 32.
\<close>

definition lower_char :: "char \<Rightarrow> char" where
  "lower_char c =
     (let n = (of_char c :: nat)
      in if (65 \<le> n \<and> n \<le> 90) \<or> (192 \<le> n \<and> n \<le> 222 \<and> n \<noteq> 215)
         then char_of (n + 32) else c)"

definition lower :: "string \<Rightarrow> string" where
  "lower s = map lower_char s"

section \<open>Ordered unique labels (\<^verbatim>\<open>unique_ordered\<close> of both modules)\<close>

text \<open>
  The argument is the series after \<^verbatim>\<open>series.astype(str)\<close>, a list of strings. The loop
  state is the pair \<^verbatim>\<open>(seen, out)\<close>.

  \<^verbatim>\<open>ras_module.unique_ordered\<close>:
  \<^verbatim>\<open>
    v = v.strip()
    if v and v not in seen:
        seen.add(v); out.append(v)
  \<close>
\<close>

definition ras_unique_step :: "string set \<times> string list \<Rightarrow> string \<Rightarrow> string set \<times> string list" where
  "ras_unique_step st v0 =
     (case st of (seen, out) \<Rightarrow>
        let v = strip v0
        in if v \<noteq> [] \<and> v \<notin> seen then (insert v seen, out @ [v]) else (seen, out))"

definition ras_unique_ordered :: "string list \<Rightarrow> string list" where
  "ras_unique_ordered series = snd (foldl ras_unique_step ({}, []) series)"

text \<open>
  \<^verbatim>\<open>tiv_module.unique_ordered\<close>:
  \<^verbatim>\<open>
    v = v.strip()
    if v and v.lower() not in ("nan", "none") and v not in seen:
        seen.add(v); out.append(v)
  \<close>
\<close>

definition tiv_unique_step :: "string set \<times> string list \<Rightarrow> string \<Rightarrow> string set \<times> string list" where
  "tiv_unique_step st v0 =
     (case st of (seen, out) \<Rightarrow>
        let v = strip v0
        in if v \<noteq> [] \<and> lower v \<notin> {''nan'', ''none''} \<and> v \<notin> seen
           then (insert v seen, out @ [v]) else (seen, out))"

definition tiv_unique_ordered :: "string list \<Rightarrow> string list" where
  "tiv_unique_ordered series = snd (foldl tiv_unique_step ({}, []) series)"

text \<open>
  What the claim about \<^verbatim>\<open>unique_ordered\<close> asks for, in its own words: duplicates
  removed, first-seen order preserved. The head stays, its later copies go.
\<close>

fun first_seen :: "'a list \<Rightarrow> 'a list" where
  "first_seen [] = []"
| "first_seen (x # xs) = x # first_seen (removeAll x xs)"

text \<open>The labels each module keeps, after trimming.\<close>

definition ras_keeps :: "string \<Rightarrow> bool" where
  "ras_keeps v \<longleftrightarrow> v \<noteq> []"

definition tiv_keeps :: "string \<Rightarrow> bool" where
  "tiv_keeps v \<longleftrightarrow> v \<noteq> [] \<and> lower v \<notin> {''nan'', ''none''}"

section \<open>Sheets as data frames\<close>

text \<open>
  What \<^verbatim>\<open>pd.read_excel\<close> hands to the loaders. A cell is a text, a number or blank
  (pandas' NaN). A frame is the list of its columns in sheet order, each a header (after
  \<^verbatim>\<open>str\<close>) with the cells below it. pandas gives the columns of a sheet distinct headers,
  but the loaders rename them, and two headers can coincide afterwards. A workbook is the
  list of its sheets by name.
\<close>

datatype cell = Text string | Number real | Blank

type_synonym frame = "(string \<times> cell list) list"

type_synonym workbook = "(string \<times> frame) list"

text \<open>
  Conversions done by Python and pandas themselves, taken as parameters:
  \<^verbatim>\<open>str(x)\<close> of a numeric cell, \<^verbatim>\<open>str(n)\<close> of an \<^verbatim>\<open>int\<close>, \<^verbatim>\<open>float(s)\<close> with \<open>None\<close> for
  its \<^verbatim>\<open>ValueError\<close>, and the number \<^verbatim>\<open>pd.to_numeric\<close> reads from a text, \<open>None\<close> when
  \<^verbatim>\<open>errors="coerce"\<close> turns it into NaN.
\<close>

record pylib =
  num_str :: "real \<Rightarrow> string"
  int_str :: "int \<Rightarrow> string"
  parse_float :: "string \<Rightarrow> real option"
  parse_numeric :: "string \<Rightarrow> real option"

text \<open>\<^verbatim>\<open>sep.join(parts)\<close>.\<close>

fun join :: "string \<Rightarrow> string list \<Rightarrow> string" where
  "join sep [] = []"
| "join sep [x] = x"
| "join sep (x # y # ys) = x @ sep @ join sep (y # ys)"

text \<open>
  \<^verbatim>\<open>read_sheet_any(path, candidates)\<close>: the first candidate that names a sheet of the
  workbook, else \<^verbatim>\<open>ValueError\<close>.
\<close>

fun first_sheet :: "workbook \<Rightarrow> string list \<Rightarrow> frame option" where
  "first_sheet wb [] = None"
| "first_sheet wb (name # rest) =
     (case map_of wb name of Some df \<Rightarrow> Some df | None \<Rightarrow> first_sheet wb rest)"

definition read_sheet_any :: "workbook \<Rightarrow> string list \<Rightarrow> error + frame" where
  "read_sheet_any wb candidates =
     (case first_sheet wb candidates of
        Some df \<Rightarrow> Inr df
      | None \<Rightarrow> Inl (ValueError (''None of the sheets found: '' @ join '', '' candidates)))"

text \<open>Frame operations: the headers, renaming them, a column rewritten cell by cell.\<close>

definition columns :: "frame \<Rightarrow> string list" where
  "columns df = map fst df"

definition rename_columns :: "(string \<Rightarrow> string) \<Rightarrow> frame \<Rightarrow> frame" where
  "rename_columns f df = map (\<lambda>col. (f (fst col), snd col)) df"

definition map_column :: "string \<Rightarrow> (cell \<Rightarrow> cell) \<Rightarrow> frame \<Rightarrow> frame" where
  "map_column c f df = map (\<lambda>col. if fst col = c then (c, map f (snd col)) else col) df"


text \<open>The number of rows, \<^verbatim>\<open>len(df.index)\<close>.\<close>

definition frame_len :: "frame \<Rightarrow> nat" where
  "frame_len df = (case df of [] \<Rightarrow> 0 | col # _ \<Rightarrow> length (snd col))"

text \<open>\<^verbatim>\<open>str(x)\<close> of a cell; NaN prints as \<^verbatim>\<open>nan\<close>.\<close>

definition cell_str :: "pylib \<Rightarrow> cell \<Rightarrow> string" where
  "cell_str py x = (case x of Text s \<Rightarrow> s | Number r \<Rightarrow> num_str py r | Blank \<Rightarrow> ''nan'')"

text \<open>\<^verbatim>\<open>pd.to_numeric(col, errors="coerce").fillna(0.0)\<close> on one cell.\<close>

definition to_numeric_or_zero :: "pylib \<Rightarrow> cell \<Rightarrow> cell" where
  "to_numeric_or_zero py x =
     (case x of
        Number r \<Rightarrow> Number r
      | Blank \<Rightarrow> Number 0
      | Text s \<Rightarrow> (case parse_numeric py s of Some r \<Rightarrow> Number r | None \<Rightarrow> Number 0))"

text \<open>
  \<^verbatim>\<open>df[c]\<close> is a column when the header \<^verbatim>\<open>c\<close> occurs once, and a \<^verbatim>\<open>DataFrame\<close> of all the
  columns of that name when it occurs more often. \<^verbatim>\<open>pd.to_numeric\<close> refuses a
  \<^verbatim>\<open>DataFrame\<close> with \<^verbatim>\<open>TypeError\<close>.
\<close>

definition repeated_header :: "frame \<Rightarrow> string \<Rightarrow> bool" where
  "repeated_header df c \<longleftrightarrow> 1 < count_list (columns df) c"

definition numeric_column :: "pylib \<Rightarrow> frame \<Rightarrow> string \<Rightarrow> error + frame" where
  "numeric_column py df c =
     (if repeated_header df c then Inl TypeError
      else Inr (map_column c (to_numeric_or_zero py) df))"

text \<open>The next statement runs only when the one before it has not raised.\<close>

definition and_then :: "error + 'a \<Rightarrow> ('a \<Rightarrow> error + 'b) \<Rightarrow> error + 'b" where
  "and_then r f = (case r of Inl e \<Rightarrow> Inl e | Inr x \<Rightarrow> f x)"

section \<open>The TIV loader (\<^verbatim>\<open>tiv_module.load_tiv_sheet\<close>)\<close>


























section \<open>The RAS loader (\<^verbatim>\<open>ras_module.load_ras_sheet\<close>)\<close>

definition RAS_SHEETS :: "string list" where
  "RAS_SHEETS = [''RAS Algorithm - INPUT'', ''INPUT'']"

definition COL_LOC :: string where
  "COL_LOC = ''Loc #''"

definition COL_ROW :: string where
  "COL_ROW = ''Premium Total''"

definition COL_COV :: string where
  "COL_COV = ''Coverage/Expense''"

definition COL_COL :: string where
  "COL_COL = ''Total''"

definition COL_ENT :: string where
  "COL_ENT = ''Enitity Name''"

definition COL_ADDR :: string where
  "COL_ADDR = ''Address''"

text \<open>\<^verbatim>\<open>if c not in df.columns: df[c] = np.nan\<close>: a new last column of blanks.\<close>

definition ensure_column :: "frame \<Rightarrow> string \<Rightarrow> frame" where
  "ensure_column df c =
     (if c \<in> set (columns df) then df else df @ [(c, replicate (frame_len df) Blank)])"

text \<open>
  \<^verbatim>\<open>df[c].astype(str).str.strip()\<close> on one cell, and
  \<^verbatim>\<open>df.loc[df[col].str.lower() == "nan", col] = ""\<close> on one cell of a text column.
\<close>

definition str_strip :: "pylib \<Rightarrow> cell \<Rightarrow> cell" where
  "str_strip py x = Text (strip (cell_str py x))"

definition blank_nan :: "pylib \<Rightarrow> cell \<Rightarrow> cell" where
  "blank_nan py x = (if lower (cell_str py x) = ''nan'' then Text [] else x)"

text \<open>
  \<^verbatim>\<open>df[c] = df[c].astype(str).str.strip()\<close>: a \<^verbatim>\<open>DataFrame\<close> has no \<^verbatim>\<open>.str\<close>, so a header
  that occurs more than once raises \<^verbatim>\<open>AttributeError\<close>.
\<close>

definition text_column :: "pylib \<Rightarrow> frame \<Rightarrow> string \<Rightarrow> error + frame" where
  "text_column py df c =
     (if repeated_header df c then Inl AttributeError
      else Inr (map_column c (str_strip py) df))"

text \<open>
  \<^verbatim>\<open>load_ras_sheet(path)\<close>: the headers are stripped, the missing ones of the six columns
  are added, then the four label columns and the two numeric columns are rewritten one
  statement after the other, and at last \<^verbatim>\<open>nan\<close> labels are blanked.
\<close>

definition load_ras_sheet :: "pylib \<Rightarrow> workbook \<Rightarrow> error + frame" where
  "load_ras_sheet py wb =
     and_then (read_sheet_any wb RAS_SHEETS) (\<lambda>df0.
       let df1 = rename_columns strip df0;
           df2 = foldl ensure_column df1 [COL_LOC, COL_COV, COL_ROW, COL_COL, COL_ENT, COL_ADDR]
       in and_then (text_column py df2 COL_LOC) (\<lambda>df3.
          and_then (text_column py df3 COL_COV) (\<lambda>df4.
          and_then (text_column py df4 COL_ENT) (\<lambda>df5.
          and_then (text_column py df5 COL_ADDR) (\<lambda>df6.
          and_then (numeric_column py df6 COL_ROW) (\<lambda>df7.
          and_then (numeric_column py df7 COL_COL) (\<lambda>df8.
            Inr (foldl (\<lambda>df c. map_column c (blank_nan py) df) df8
                   [COL_LOC, COL_COV, COL_ENT, COL_ADDR]))))))))"

section \<open>Notions for the loaders' properties\<close>





text \<open>
  An example workbook for the two loaders, and library conversions that read nothing;
  the example has texts in its label columns and numbers in its numeric columns, so no
  conversion is consulted for it.
\<close>

definition py_blank :: pylib where
  "py_blank = \<lparr> num_str = (\<lambda>_. []), int_str = (\<lambda>_. []),
                parse_float = (\<lambda>_. None), parse_numeric = (\<lambda>_. None) \<rparr>"


text \<open>
  A RAS sheet in which two headers coincide once stripped (\<^verbatim>\<open>Loc #\<close> with and without a
  leading blank), and one in which the numeric header \<^verbatim>\<open>Total\<close> does.
\<close>

definition repeated_label_workbook :: workbook where
  "repeated_label_workbook =
     [(''INPUT'',
         [(''Loc #'', [Text ''1'']),
          ('' Loc #'', [Text ''2'']),
          (''Coverage/Expense'', [Text ''Fire'']),
          (''Premium Total'', [Number 100]),
          (''Total'', [Number 100])])]"

definition repeated_total_workbook :: workbook where
  "repeated_total_workbook =
     [(''INPUT'',
         [(''Loc #'', [Text ''1'']),
          (''Coverage/Expense'', [Text ''Fire'']),
          (''Premium Total'', [Number 100]),
          (''Total'', [Number 100]),
          (''Total '', [Number 100])])]"


section \<open>The TIV matrix (\<^verbatim>\<open>tiv_module.build_tiv_matrix\<close>)\<close>

text \<open>
  \<^verbatim>\<open>build_tiv_matrix(df, cols)\<close> reads four columns of the loaded frame. The embedding
  takes the frame row by row, each row with the values of these columns: the coverage
  label, the location label (\<open>None\<close> where the frame holds NaN), the premium and the
  insured value. The metadata that the source returns as a sixth result is computed by
  \<^verbatim>\<open>build_loc_meta_tiv\<close> from other columns and is not part of the embedding.
\<close>

record tiv_row =
  row_cov :: string
  row_loc :: "string option"
  row_pre :: real
  row_tiv :: real

text \<open>
  \<^verbatim>\<open>df.groupby(key)[val].sum().to_dict()\<close>: one item per key that occurs, with the sum
  of the values of its rows. pandas orders the keys; the source only looks keys up, so the
  embedding keeps them in the order \<^const>\<open>remdups\<close> leaves.
\<close>

definition group_sum :: "('r \<Rightarrow> 'k) \<Rightarrow> ('r \<Rightarrow> real) \<Rightarrow> 'r list \<Rightarrow> ('k, real) dict" where
  "group_sum key val rows =
     map (\<lambda>k. (k, sum_list (map val (filter (\<lambda>r. key r = k) rows)))) (remdups (map key rows))"

text \<open>\<^verbatim>\<open>d.setdefault(k, v)\<close>, for its effect on \<^verbatim>\<open>d\<close>.\<close>

definition dict_setdefault :: "('k, 'v) dict \<Rightarrow> 'k \<Rightarrow> 'v \<Rightarrow> ('k, 'v) dict" where
  "dict_setdefault d k v = (case map_of d k of None \<Rightarrow> d @ [(k, v)] | Some _ \<Rightarrow> d)"

text \<open>
  The matrix \<^verbatim>\<open>mat\<close>, a dict of dicts: location, then coverage. \<^verbatim>\<open>mat[l][c] = v\<close> is
  only executed for locations \<^verbatim>\<open>l\<close> of \<^verbatim>\<open>locs\<close>, which are the keys of \<^verbatim>\<open>mat\<close>.
\<close>

type_synonym tiv_mat = "(string, (string, real) dict) dict"

definition mat_set :: "tiv_mat \<Rightarrow> string \<Rightarrow> string \<Rightarrow> real \<Rightarrow> tiv_mat" where
  "mat_set mat l c v = map (\<lambda>row. if fst row = l then (l, dict_set (snd row) c v) else row) mat"

text \<open>Reading \<^verbatim>\<open>mat[l][c]\<close>; \<open>None\<close> stands for the \<^verbatim>\<open>KeyError\<close> of a key that is absent.\<close>

definition mat_cell :: "tiv_mat \<Rightarrow> string \<Rightarrow> string \<Rightarrow> real option" where
  "mat_cell mat l c = (case map_of mat l of None \<Rightarrow> None | Some row \<Rightarrow> map_of row c)"

text \<open>
  \<^verbatim>\<open>cov_locs = [l for l in locs if (cov, l) in tiv_by_cov_loc and tiv_by_cov_loc[(cov, l)] > 0]\<close>
\<close>

definition cov_locs_of :: "((string \<times> string), real) dict \<Rightarrow> string list \<Rightarrow> string \<Rightarrow> string list" where
  "cov_locs_of tiv_by_cov_loc locs cov_name =
     filter (\<lambda>l. case map_of tiv_by_cov_loc (cov_name, l) of None \<Rightarrow> False | Some t \<Rightarrow> t > 0) locs"

text \<open>
  The choice of weights for one coverage:
  \<^verbatim>\<open>
    if len(cov_locs) >= 2:
        tiv_map = {l: tiv_by_cov_loc.get((cov, l), 0.0) for l in cov_locs}
        alloc_locs = cov_locs
    else:
        tiv_map = tiv_global_map
        alloc_locs = locs
  \<close>
\<close>

definition choose_weights ::
    "((string \<times> string), real) dict \<Rightarrow> (string, real) dict \<Rightarrow> string list \<Rightarrow> string
     \<Rightarrow> (string, real) dict \<times> string list" where
  "choose_weights tiv_by_cov_loc tiv_global_map locs cov_name =
     (let cov_locs = cov_locs_of tiv_by_cov_loc locs cov_name
      in if length cov_locs \<ge> 2
         then (dict_of (map (\<lambda>l. (l, dict_get tiv_by_cov_loc (cov_name, l) 0)) cov_locs), cov_locs)
         else (tiv_global_map, locs))"

text \<open>
  One pass of \<^verbatim>\<open>for cov in covs\<close>: the premium of the coverage, the weights, the
  allocation, and \<^verbatim>\<open>for l in alloc_locs: mat[str(l)][cov] = alloc.get(l, 0.0)\<close>.
\<close>

definition cov_step ::
    "((string \<times> string), real) dict \<Rightarrow> (string, real) dict \<Rightarrow> (string, real) dict
     \<Rightarrow> string list \<Rightarrow> tiv_mat \<Rightarrow> string \<Rightarrow> error + tiv_mat" where
  "cov_step tiv_by_cov_loc tiv_global_map premium_by_cov locs mat cov_name =
     (let P = dict_get premium_by_cov cov_name 0;
          (tiv_map, alloc_locs) = choose_weights tiv_by_cov_loc tiv_global_map locs cov_name
      in case allocate_cents_for_coverage P tiv_map alloc_locs of
           Inl e \<Rightarrow> Inl e
         | Inr alloc \<Rightarrow>
             Inr (foldl (\<lambda>m l. mat_set m l cov_name (dict_get alloc l 0)) mat alloc_locs))"

fun cov_loop ::
    "((string \<times> string), real) dict \<Rightarrow> (string, real) dict \<Rightarrow> (string, real) dict
     \<Rightarrow> string list \<Rightarrow> tiv_mat \<Rightarrow> string list \<Rightarrow> error + tiv_mat" where
  "cov_loop tbcl tgm pbc locs mat [] = Inr mat"
| "cov_loop tbcl tgm pbc locs mat (cov_name # rest) =
     (case cov_step tbcl tgm pbc locs mat cov_name of
        Inl e \<Rightarrow> Inl e
      | Inr mat' \<Rightarrow> cov_loop tbcl tgm pbc locs mat' rest)"

text \<open>The first five results of \<^verbatim>\<open>build_tiv_matrix\<close>.\<close>

record tiv_matrix =
  out_locs :: "string list"
  out_covs :: "string list"
  out_mat :: tiv_mat
  out_row_vec :: "real list"
  out_col_vec :: "real list"

text \<open>The rows that have a location, each with it: \<^verbatim>\<open>df.dropna(subset=[cols["loc"]])\<close>.\<close>

definition located_rows :: "tiv_row list \<Rightarrow> (string \<times> tiv_row) list" where
  "located_rows rows =
     concat (map (\<lambda>r. case row_loc r of None \<Rightarrow> [] | Some l \<Rightarrow> [(l, r)]) rows)"

definition build_tiv_matrix :: "tiv_row list \<Rightarrow> error + tiv_matrix" where
  "build_tiv_matrix rows =
     (let located = located_rows rows;
          locs = tiv_unique_ordered (map fst located);
          tiv_global_map = foldl (\<lambda>d l. dict_setdefault d l 0)
                             (group_sum fst (\<lambda>lr. row_tiv (snd lr)) located) locs;
          covs = tiv_unique_ordered (map row_cov rows);
          premium_by_cov = group_sum row_cov row_pre rows;
          tiv_by_cov_loc = group_sum (\<lambda>lr. (row_cov (snd lr), fst lr)) (\<lambda>lr. row_tiv (snd lr)) located;
          mat0 = dict_of (map (\<lambda>l. (l, dict_of (map (\<lambda>c. (c, 0)) covs))) locs)
      in case cov_loop tiv_by_cov_loc tiv_global_map premium_by_cov locs mat0 covs of
           Inl e \<Rightarrow> Inl e
         | Inr mat \<Rightarrow>
             Inr \<lparr> out_locs = locs,
                   out_covs = covs,
                   out_mat = mat,
                   out_row_vec = map (\<lambda>l. sum_list (map (\<lambda>c. dict_get (dict_get mat l []) c 0) covs)) locs,
                   out_col_vec = map (\<lambda>c. dict_get premium_by_cov c 0) covs \<rparr>)"

text \<open>
  The quantities the weight policy is about, read off the rows: the weight of a location
  under one coverage, its weight over all coverages, and the premium of a coverage.
\<close>

definition cat_weight :: "tiv_row list \<Rightarrow> string \<Rightarrow> string \<Rightarrow> real" where
  "cat_weight rows c l =
     sum_list (map row_tiv (filter (\<lambda>r. row_cov r = c \<and> row_loc r = Some l) rows))"

definition global_weight :: "tiv_row list \<Rightarrow> string \<Rightarrow> real" where
  "global_weight rows l = sum_list (map row_tiv (filter (\<lambda>r. row_loc r = Some l) rows))"

definition cov_premium :: "tiv_row list \<Rightarrow> string \<Rightarrow> real" where
  "cov_premium rows c = sum_list (map row_pre (filter (\<lambda>r. row_cov r = c) rows))"

definition tiv_locs :: "tiv_row list \<Rightarrow> string list" where
  "tiv_locs rows = tiv_unique_ordered (map fst (located_rows rows))"

definition tiv_covs :: "tiv_row list \<Rightarrow> string list" where
  "tiv_covs rows = tiv_unique_ordered (map row_cov rows)"

text \<open>The locations with a positive weight under a coverage.\<close>

definition cat_locs :: "tiv_row list \<Rightarrow> string \<Rightarrow> string list" where
  "cat_locs rows c = filter (\<lambda>l. 0 < cat_weight rows c l) (tiv_locs rows)"

section \<open>Notions for the properties of the TIV matrix\<close>

text \<open>
  The cents \<^const>\<open>allocate_cents_for_coverage\<close> returns for weights \<open>tivs\<close>, and the amount
  one pass of the coverage loop writes into a cell (lemmas \<open>allocate_result\<close> and
  \<open>cov_step_cell\<close>).
\<close>

definition final_cents :: "real \<Rightarrow> real list \<Rightarrow> int list" where
  "final_cents P tivs =
     (if P \<le> 0 then replicate (length tivs) 0 else alloc_cents tivs (rint (P * 100)))"

definition col_amount ::
    "((string \<times> string), real) dict \<Rightarrow> (string, real) dict \<Rightarrow> (string, real) dict
     \<Rightarrow> string list \<Rightarrow> string \<Rightarrow> string \<Rightarrow> real" where
  "col_amount tbcl tgm pbc locs c l =
     (case allocate_cents_for_coverage (dict_get pbc c 0)
             (fst (choose_weights tbcl tgm locs c)) (snd (choose_weights tbcl tgm locs c)) of
        Inr alloc \<Rightarrow> dict_get alloc l 0
      | Inl _ \<Rightarrow> 0)"

text \<open>
  Two example inputs. In the first each coverage has one location only, and both
  locations carry insured value; in the second the one coverage lists two locations, of
  which one has no insured value.
\<close>

definition sparse_rows :: "tiv_row list" where
  "sparse_rows =
     [\<lparr>row_cov = ''Fire'', row_loc = Some ''L1'', row_pre = 1000, row_tiv = 100\<rparr>,
      \<lparr>row_cov = ''Flood'', row_loc = Some ''L2'', row_pre = 500, row_tiv = 300\<rparr>]"

definition lone_rows :: "tiv_row list" where
  "lone_rows =
     [\<lparr>row_cov = ''Fire'', row_loc = Some ''L1'', row_pre = 100, row_tiv = 50\<rparr>,
      \<lparr>row_cov = ''Fire'', row_loc = Some ''L2'', row_pre = 0, row_tiv = 0\<rparr>]"

lemma nth_update_if:
  "(xs[i := x]) ! j = (if i = j \<and> i < length xs then x else xs ! j)"
  by (cases "i < length xs") (simp_all add: nth_list_update list_update_beyond)

lemma sum_list_update_int:
  fixes xs :: "int list"
  shows "i < length xs \<Longrightarrow> sum_list (xs[i := v]) = sum_list xs - xs ! i + v"
  by (induction xs arbitrary: i) (auto split: nat.splits)

lemma length_all_cells: "length (all_cells nR nC) = nR * nC"
  by (induction nR) (simp_all add: all_cells_def)

lemma set_all_cells: "set (all_cells nR nC) = {..<nR} \<times> {..<nC}"
  by (auto simp: all_cells_def)

lemma length_cell_order: "length (cell_order nR nC R) = nR * nC"
  by (simp add: cell_order_def length_all_cells)

lemma set_cell_order: "set (cell_order nR nC R) = {..<nR} \<times> {..<nC}"
  by (simp add: cell_order_def set_all_cells)

lemma greedy_pass_prefix:
  "\<exists>k\<le>length idx. greedy_pass idx s = fold cell_step (take k idx) s"
proof (induction idx arbitrary: s)
  case Nil
  then show ?case by simp
next
  case (Cons ij rest)
  show ?case
  proof (cases "sum_list (row_def (cell_step ij s)) = 0 \<and> sum_list (col_def (cell_step ij s)) = 0")
    case True
    then have "greedy_pass (ij # rest) s = fold cell_step (take 1 (ij # rest)) s"
      by simp
    then show ?thesis by (metis One_nat_def Suc_leI length_Cons zero_less_Suc)
  next
    case False
    from Cons.IH obtain k where "k \<le> length rest"
      "greedy_pass rest (cell_step ij s) = fold cell_step (take k rest) (cell_step ij s)"
      by blast
    with False have "Suc k \<le> length (ij # rest)"
      "greedy_pass (ij # rest) s = fold cell_step (take (Suc k) (ij # rest)) s"
      by (auto simp: Let_def)
    then show ?thesis by blast
  qed
qed

lemma cell_step_shape:
  "shape_ok nR nC s \<Longrightarrow> shape_ok nR nC (cell_step ij s)"
  by (cases ij) (auto simp: shape_ok_def cell_step_def Let_def mat_shape_def list_all_length nth_update_if)

lemma cell_step_diff:
  assumes "shape_ok nR nC s" "i < nR" "j < nC"
  shows "sum_list (row_def (cell_step (i, j) s)) - sum_list (col_def (cell_step (i, j) s))
       = sum_list (row_def s) - sum_list (col_def s)"
  using assms by (simp add: cell_step_def Let_def shape_ok_def sum_list_update_int)

lemma greedy_pass_shape:
  "shape_ok nR nC s \<Longrightarrow> shape_ok nR nC (greedy_pass idx s)"
  by (induction idx arbitrary: s) (simp_all add: Let_def cell_step_shape)

lemma greedy_pass_diff:
  assumes "shape_ok nR nC s" "set idx \<subseteq> {..<nR} \<times> {..<nC}"
  shows "sum_list (row_def (greedy_pass idx s)) - sum_list (col_def (greedy_pass idx s))
       = sum_list (row_def s) - sum_list (col_def s)"
  using assms
proof (induction idx arbitrary: s)
  case Nil
  then show ?case by simp
next
  case (Cons ij rest)
  obtain i j where ij: "ij = (i, j)" by (cases ij)
  with Cons.prems have r: "i < nR" "j < nC" by auto
  have d: "sum_list (row_def (cell_step ij s)) - sum_list (col_def (cell_step ij s))
       = sum_list (row_def s) - sum_list (col_def s)"
    unfolding ij by (rule cell_step_diff [OF Cons.prems(1) r])
  have "sum_list (row_def (greedy_pass rest (cell_step ij s)))
        - sum_list (col_def (greedy_pass rest (cell_step ij s)))
       = sum_list (row_def (cell_step ij s)) - sum_list (col_def (cell_step ij s))"
    using Cons.prems by (intro Cons.IH cell_step_shape) auto
  with d show ?case by (simp add: Let_def)
qed

text \<open>The grand total of a rectangular matrix, by rows and by columns.\<close>

lemma col_sums_Cons:
  "length r = nC \<Longrightarrow> col_sums nC (r # M) = map2 (+) r (col_sums nC M)"
  by (auto simp: col_sums_def intro!: nth_equalityI)

lemma sum_list_map2_add:
  fixes xs ys :: "('a::comm_monoid_add) list"
  shows "length xs = length ys \<Longrightarrow> sum_list (map2 (+) xs ys) = sum_list xs + sum_list ys"
  by (induction xs ys rule: list_induct2) (simp_all add: ac_simps)

lemma sum_list_map2_diff:
  fixes xs ys :: "int list"
  shows "length xs = length ys \<Longrightarrow> sum_list (map2 (-) xs ys) = sum_list xs - sum_list ys"
  by (induction xs ys rule: list_induct2) simp_all

lemma length_col_sums [simp]: "length (col_sums nC M) = nC"
  by (simp add: col_sums_def)

lemma length_row_sums [simp]: "length (row_sums M) = length M"
  by (simp add: row_sums_def)

lemma sum_col_sums_zero: "sum_list (col_sums nC []) = (0::'a::comm_monoid_add)"
  by (simp add: col_sums_def)

lemma sum_col_sums:
  fixes M :: "('a::comm_monoid_add) matrix"
  shows "list_all (\<lambda>row. length row = nC) M \<Longrightarrow> sum_list (col_sums nC M) = sum_list (row_sums M)"
proof (induction M)
  case Nil
  then show ?case by (simp add: sum_col_sums_zero row_sums_def)
next
  case (Cons r M)
  then have "sum_list (col_sums nC (r # M)) = sum_list r + sum_list (col_sums nC M)"
    by (simp add: col_sums_Cons sum_list_map2_add)
  with Cons show ?case by (simp add: row_sums_def)
qed

lemma round_init_shape:
  assumes "mat_shape (length rT) (length cT) X"
  shows "shape_ok (length rT) (length cT) (round_init X rT cT)"
  using assms
  by (simp add: shape_ok_def round_init_def Let_def mat_shape_def cent_targets_def list_all_length floor_cents_def)

lemma round_init_diff:
  assumes "mat_shape (length rT) (length cT) X"
  shows "sum_list (row_def (round_init X rT cT)) - sum_list (col_def (round_init X rT cT))
       = sum_list (cent_targets rT) - sum_list (cent_targets cT)"
proof -
  let ?Xf = "floor_cents X"
  have all: "list_all (\<lambda>row. length row = length cT) ?Xf"
    using assms by (simp add: mat_shape_def list_all_length floor_cents_def)
  have "sum_list (row_def (round_init X rT cT)) = sum_list (cent_targets rT) - sum_list (row_sums ?Xf)"
    using assms by (simp add: round_init_def Let_def sum_list_map2_diff cent_targets_def mat_shape_def floor_cents_def)
  moreover have "sum_list (col_def (round_init X rT cT)) = sum_list (cent_targets cT) - sum_list (col_sums (length cT) ?Xf)"
    by (simp add: round_init_def Let_def sum_list_map2_diff cent_targets_def)
  ultimately show ?thesis using sum_col_sums [OF all] by simp
qed

lemma cell_step_rows_ok:
  assumes "shape_ok (length rT) nC s" "i < length rT" "j < nC" "rows_ok rT s"
  shows "rows_ok rT (cell_step (i, j) s)"
proof -
  have len: "length (Xc s) = length rT" "length (Xc s ! i) = nC" "length (row_def s) = length rT"
    using assms(1,2) by (auto simp: shape_ok_def mat_shape_def list_all_length)
  show ?thesis
    using assms(2-4) len
    by (auto simp: rows_ok_def cell_step_def Let_def nth_update_if sum_list_update_int)
qed

lemma cell_step_cols_ok:
  assumes "shape_ok nR (length cT) s" "i < nR" "j < length cT" "cols_ok cT s"
  shows "cols_ok cT (cell_step (i, j) s)"
proof -
  have len: "length (Xc s) = nR" "length (Xc s ! i) = length cT" "length (col_def s) = length cT"
    using assms(1,2) by (auto simp: shape_ok_def mat_shape_def list_all_length)
  show ?thesis
    using assms(2-4) len
    by (auto simp: cols_ok_def cell_step_def Let_def nth_update_if sum_list_update_int map_update)
qed

lemma cell_step_nonneg:
  "defs_nonneg s \<Longrightarrow> defs_nonneg (cell_step ij s)"
  by (cases ij) (auto simp: defs_nonneg_def cell_step_def Let_def dest!: set_update_subset_insert [THEN subsetD])

lemma cell_step_row_def_le:
  "i' < length (row_def s) \<Longrightarrow> row_def (cell_step ij s) ! i' \<le> row_def s ! i'"
  by (cases ij) (auto simp: cell_step_def Let_def nth_update_if)

lemma cell_step_col_def_le:
  "j' < length (col_def s) \<Longrightarrow> col_def (cell_step ij s) ! j' \<le> col_def s ! j'"
  by (cases ij) (auto simp: cell_step_def Let_def nth_update_if)

lemma cell_step_Xc_ge:
  "Xc s ! i' ! j' \<le> Xc (cell_step ij s) ! i' ! j'"
  by (cases ij) (auto simp: cell_step_def Let_def nth_update_if)

lemma cell_step_exhausts:
  assumes "defs_nonneg s" "i < length (row_def s)" "j < length (col_def s)"
  shows "row_def (cell_step (i, j) s) ! i = 0 \<or> col_def (cell_step (i, j) s) ! j = 0"
proof -
  have "0 \<le> row_def s ! i" "0 \<le> col_def s ! j"
    using assms by (simp_all add: defs_nonneg_def)
  then show ?thesis using assms(2,3)
    by (auto simp: cell_step_def Let_def min_def)
qed

lemma greedy_pass_Xc_ge:
  "Xc s ! i ! j \<le> Xc (greedy_pass idx s) ! i ! j"
proof (induction idx arbitrary: s)
  case Nil
  then show ?case by simp
next
  case (Cons ij rest)
  have "Xc s ! i ! j \<le> Xc (cell_step ij s) ! i ! j" by (rule cell_step_Xc_ge)
  also have "\<dots> \<le> Xc (greedy_pass rest (cell_step ij s)) ! i ! j" by (rule Cons.IH)
  finally show ?case using cell_step_Xc_ge [of s i j ij] by (simp add: Let_def)
qed

lemma cell_step_inv:
  assumes "round_inv rT cT s" "i < length rT" "j < length cT"
  shows "round_inv rT cT (cell_step (i, j) s)"
  using assms
  by (auto simp: round_inv_def intro: cell_step_shape cell_step_rows_ok cell_step_cols_ok)

lemma greedy_pass_nonneg:
  "defs_nonneg s \<Longrightarrow> defs_nonneg (greedy_pass idx s)"
  by (induction idx arbitrary: s) (simp_all add: Let_def cell_step_nonneg)

lemma greedy_pass_inv:
  assumes "round_inv rT cT s" "set idx \<subseteq> {..<length rT} \<times> {..<length cT}"
  shows "round_inv rT cT (greedy_pass idx s)"
  using assms
proof (induction idx arbitrary: s)
  case Nil
  then show ?case by simp
next
  case (Cons ij rest)
  obtain i j where ij: "ij = (i, j)" by (cases ij)
  with Cons.prems have "round_inv rT cT (cell_step ij s)"
    by (auto intro: cell_step_inv)
  moreover from this Cons.prems have "round_inv rT cT (greedy_pass rest (cell_step ij s))"
    by (intro Cons.IH) auto
  ultimately show ?case by (simp add: Let_def)
qed

lemma greedy_pass_row_def_le:
  "i < length (row_def s) \<Longrightarrow> row_def (greedy_pass idx s) ! i \<le> row_def s ! i"
proof (induction idx arbitrary: s)
  case Nil
  then show ?case by simp
next
  case (Cons ij rest)
  have len: "length (row_def (cell_step ij s)) = length (row_def s)"
    by (cases ij) (simp add: cell_step_def Let_def)
  have "row_def (greedy_pass rest (cell_step ij s)) ! i \<le> row_def (cell_step ij s) ! i"
    using Cons.prems len by (intro Cons.IH) simp
  also have "\<dots> \<le> row_def s ! i" using Cons.prems by (rule cell_step_row_def_le)
  finally show ?case using cell_step_row_def_le [OF Cons.prems, of ij] by (simp add: Let_def)
qed

lemma greedy_pass_col_def_le:
  "j < length (col_def s) \<Longrightarrow> col_def (greedy_pass idx s) ! j \<le> col_def s ! j"
proof (induction idx arbitrary: s)
  case Nil
  then show ?case by simp
next
  case (Cons ij rest)
  have len: "length (col_def (cell_step ij s)) = length (col_def s)"
    by (cases ij) (simp add: cell_step_def Let_def)
  have "col_def (greedy_pass rest (cell_step ij s)) ! j \<le> col_def (cell_step ij s) ! j"
    using Cons.prems len by (intro Cons.IH) simp
  also have "\<dots> \<le> col_def s ! j" using Cons.prems by (rule cell_step_col_def_le)
  finally show ?case using cell_step_col_def_le [OF Cons.prems, of ij] by (simp add: Let_def)
qed

lemma greedy_pass_exhausts:
  assumes "round_inv rT cT s" "set idx \<subseteq> {..<length rT} \<times> {..<length cT}" "(i, j) \<in> set idx"
    and "defs_nonneg s"
  shows "all_zero (greedy_pass idx s)
         \<or> row_def (greedy_pass idx s) ! i = 0 \<or> col_def (greedy_pass idx s) ! j = 0"
  using assms
proof (induction idx arbitrary: s)
  case Nil
  then show ?case by simp
next
  case (Cons ab rest)
  obtain a b where ab: "ab = (a, b)" by (cases ab)
  let ?s1 = "cell_step ab s"
  have r: "a < length rT" "b < length cT" using Cons.prems(2) ab by auto
  have inv1: "round_inv rT cT ?s1"
    unfolding ab using Cons.prems(1) r by (rule cell_step_inv)
  have sub: "set rest \<subseteq> {..<length rT} \<times> {..<length cT}" using Cons.prems(2) by auto
  show ?case
  proof (cases "all_zero ?s1")
    case True
    then show ?thesis by (simp add: Let_def all_zero_def)
  next
    case False
    then have gp: "greedy_pass (ab # rest) s = greedy_pass rest ?s1"
      by (auto simp: Let_def all_zero_def)
    show ?thesis
    proof (cases "(i, j) \<in> set rest")
      case True
      then show ?thesis unfolding gp by (intro Cons.IH inv1 sub cell_step_nonneg Cons.prems(4))
    next
      case False
      with Cons.prems(3) ab have eq: "a = i" "b = j" by auto
      have len: "length (row_def s) = length rT" "length (col_def s) = length cT"
        "length (row_def ?s1) = length rT" "length (col_def ?s1) = length cT"
        using Cons.prems(1) inv1 by (simp_all add: round_inv_def shape_ok_def)
      have nn: "defs_nonneg (greedy_pass rest ?s1)"
        by (intro greedy_pass_nonneg cell_step_nonneg Cons.prems(4))
      have len2: "length (row_def (greedy_pass rest ?s1)) = length rT"
        "length (col_def (greedy_pass rest ?s1)) = length cT"
        using greedy_pass_inv [OF inv1 sub] by (simp_all add: round_inv_def shape_ok_def)
      have z: "row_def ?s1 ! i = 0 \<or> col_def ?s1 ! j = 0"
        unfolding ab eq [symmetric]
        using Cons.prems(4) r len by (intro cell_step_exhausts) simp_all
      have "row_def (greedy_pass rest ?s1) ! i \<le> row_def ?s1 ! i"
        "col_def (greedy_pass rest ?s1) ! j \<le> col_def ?s1 ! j"
        using r eq len by (simp_all add: greedy_pass_row_def_le greedy_pass_col_def_le)
      moreover have "0 \<le> row_def (greedy_pass rest ?s1) ! i" "0 \<le> col_def (greedy_pass rest ?s1) ! j"
        using nn r eq len2 by (simp_all add: defs_nonneg_def)
      ultimately show ?thesis unfolding gp using z by auto
    qed
  qed
qed

lemma nonneg_sum_zero:
  fixes xs :: "int list"
  assumes "\<forall>d\<in>set xs. 0 \<le> d" "sum_list xs = 0"
  shows "\<forall>d\<in>set xs. d = 0"
  using assms by (simp add: sum_list_nonneg_eq_0_iff)

lemma zeros_sum_zero:
  fixes xs :: "int list"
  shows "\<forall>d\<in>set xs. d = 0 \<Longrightarrow> sum_list xs = 0"
  by (induction xs) simp_all

lemma greedy_pass_clears:
  assumes inv: "round_inv rT cT s" and nn0: "defs_nonneg s"
    and bal: "sum_list (row_def s) = sum_list (col_def s)"
  shows "(\<forall>d\<in>set (row_def (greedy_pass (cell_order (length rT) (length cT) R) s)). d = 0)
       \<and> (\<forall>d\<in>set (col_def (greedy_pass (cell_order (length rT) (length cT) R) s)). d = 0)"
proof -
  let ?idx = "cell_order (length rT) (length cT) R"
  let ?s = "greedy_pass ?idx s"
  have sub: "set ?idx \<subseteq> {..<length rT} \<times> {..<length cT}" by (simp add: set_cell_order)
  have inv': "round_inv rT cT ?s" using inv sub by (rule greedy_pass_inv)
  then have len: "length (row_def ?s) = length rT" "length (col_def ?s) = length cT"
    by (simp_all add: round_inv_def shape_ok_def)
  have nn: "\<forall>d\<in>set (row_def ?s). 0 \<le> d" "\<forall>d\<in>set (col_def ?s). 0 \<le> d"
    using greedy_pass_nonneg [OF nn0, of ?idx] by (simp_all add: defs_nonneg_def)
  have bal': "sum_list (row_def ?s) = sum_list (col_def ?s)"
    using greedy_pass_diff [OF _ sub, of s] inv bal by (simp add: round_inv_def)
  have rows: "\<forall>d\<in>set (row_def ?s). d = 0"
  proof (rule ccontr)
    assume "\<not> (\<forall>d\<in>set (row_def ?s). d = 0)"
    then obtain i where i: "i < length rT" "row_def ?s ! i \<noteq> 0"
      using len by (auto simp: in_set_conv_nth)
    have nz: "\<not> all_zero ?s"
      using i nn(1) len nonneg_sum_zero [OF nn(1)] by (auto simp: all_zero_def)
    have "col_def ?s ! j = 0" if "j < length cT" for j
    proof -
      have "(i, j) \<in> set ?idx" using i that by (simp add: set_cell_order)
      from greedy_pass_exhausts [OF inv sub this nn0] nz i show ?thesis by simp
    qed
    then have "\<forall>d\<in>set (col_def ?s). d = 0" using len by (auto simp: in_set_conv_nth)
    then have "sum_list (col_def ?s) = 0" by (rule zeros_sum_zero)
    with bal' have "sum_list (row_def ?s) = 0" by simp
    with nonneg_sum_zero [OF nn(1)] i len show False by auto
  qed
  then have "sum_list (row_def ?s) = 0" by (rule zeros_sum_zero)
  with bal' have "sum_list (col_def ?s) = 0" by simp
  with nonneg_sum_zero [OF nn(2)] rows show ?thesis by blast
qed

lemma col_sums_nth:
  "j < nC \<Longrightarrow> col_sums nC M ! j = sum_list (map (\<lambda>row. row ! j) M)"
  by (simp add: col_sums_def)

lemma round_init_inv:
  assumes "mat_shape (length rT) (length cT) X"
  shows "round_inv (cent_targets rT) (cent_targets cT) (round_init X rT cT)"
proof -
  have sh: "shape_ok (length rT) (length cT) (round_init X rT cT)"
    using assms by (rule round_init_shape)
  have len: "length X = length rT" using assms by (simp add: mat_shape_def)
  have "rows_ok (cent_targets rT) (round_init X rT cT)"
    using len by (simp add: rows_ok_def round_init_def Let_def cent_targets_def row_sums_def floor_cents_def)
  moreover have "cols_ok (cent_targets cT) (round_init X rT cT)"
    by (simp add: cols_ok_def round_init_def Let_def cent_targets_def col_sums_nth)
  ultimately show ?thesis using sh by (simp add: round_inv_def cent_targets_def)
qed

lemma round_init_nonneg:
  assumes "mat_shape (length rT) (length cT) X"
    and "list_all2 (\<le>) (row_sums (floor_cents X)) (cent_targets rT)"
    and "list_all2 (\<le>) (col_sums (length cT) (floor_cents X)) (cent_targets cT)"
  shows "defs_nonneg (round_init X rT cT)"
  using assms(2,3)
  by (auto simp: defs_nonneg_def round_init_def Let_def set_zip list_all2_conv_all_nth)

lemma cell_step_lengths:
  "length (Xc (cell_step ij s)) = length (Xc s)"
  "length (Xc (cell_step ij s) ! i) = length (Xc s ! i)"
  by (cases ij; simp add: cell_step_def Let_def nth_update_if)+

lemma greedy_pass_lengths:
  "length (Xc (greedy_pass idx s)) = length (Xc s)
   \<and> length (Xc (greedy_pass idx s) ! i) = length (Xc s ! i)"
  by (induction idx arbitrary: s) (simp_all add: Let_def cell_step_lengths)

text \<open>
  Claim C10. \<^verbatim>\<open>round_matrix_exact_cents\<close> never decreases a cell: whatever the targets, the
  returned matrix has the shape of \<^verbatim>\<open>X\<close> and each of its entries is at least
  \<^verbatim>\<open>floor(100 * X[i][j]) / 100\<close>. The correction pass only adds cents on top of the
  element-wise floor.
\<close>

theorem round_never_decreases:
  assumes "i < length X" "j < length (X ! i)"
  shows "length (round_matrix_exact_cents X rT cT) = length X
       \<and> length (round_matrix_exact_cents X rT cT ! i) = length (X ! i)
       \<and> real_of_int \<lfloor>X ! i ! j * 100\<rfloor> / 100 \<le> round_matrix_exact_cents X rT cT ! i ! j"
proof -
  let ?ini = "round_init X rT cT"
  let ?idx = "cell_order (length rT) (length cT) (frac_remainders X)"
  have X0: "Xc ?ini = floor_cents X" by (simp add: round_init_def Let_def)
  have l1: "length (Xc (greedy_pass ?idx ?ini)) = length X"
    and l2: "length (Xc (greedy_pass ?idx ?ini) ! i) = length (X ! i)"
    using greedy_pass_lengths [of ?idx ?ini i] assms(1) by (simp_all add: X0 floor_cents_def)
  have "Xc ?ini ! i ! j \<le> Xc (greedy_pass ?idx ?ini) ! i ! j" by (rule greedy_pass_Xc_ge)
  then have "\<lfloor>X ! i ! j * 100\<rfloor> \<le> Xc (greedy_pass ?idx ?ini) ! i ! j"
    using assms by (simp add: X0 floor_cents_def)
  then show ?thesis using assms l1 l2
    by (simp add: round_matrix_exact_cents_def round_final_def divide_right_mono)
qed

text \<open>The cell \<^verbatim>\<open>(1, 0)\<close> of a two by two example: floor 29.99, returned 30.00.\<close>

theorem round_never_decreases_witness:
  "real_of_int \<lfloor>(29996 / 1000 :: real) * 100\<rfloor> / 100 = 2999 / 100
   \<and> 2999 / 100 \<le> round_matrix_exact_cents [[30004 / 1000, 19996 / 1000], [29996 / 1000, 20004 / 1000]] [50, 50] [60, 40] ! 1 ! 0"
  using round_never_decreases [of 1 "[[30004 / 1000, 19996 / 1000], [29996 / 1000, 20004 / 1000]]" 0 "[50, 50]" "[60, 40]"]
  by simp

text \<open>
  Claim C4. For every matrix of the targets' shape and all targets, matched or not,
  \<^verbatim>\<open>round_matrix_exact_cents\<close> leaves its loop after at most \<^verbatim>\<open>nR * nC\<close> cell steps, taken
  in the sorted order (one pass, no cell twice); the deficit vectors it ends with are the
  cent targets minus the row and column sums of the matrix it returns; and total row
  deficit minus total column deficit is \<^verbatim>\<open>sum(rT_cents) - sum(cT_cents)\<close>, the mismatch of
  the targets. The embedding has no error branch here: the source raises nowhere in this
  function on arrays of matching shape.
\<close>

theorem round_mismatch_residual:
  assumes "mat_shape (length rT) (length cT) X"
  shows "(\<exists>k\<le>length rT * length cT.
            round_final X rT cT
            = fold cell_step (take k (cell_order (length rT) (length cT) (frac_remainders X)))
                (round_init X rT cT))
       \<and> row_def (round_final X rT cT)
           = map2 (-) (cent_targets rT) (row_sums (Xc (round_final X rT cT)))
       \<and> col_def (round_final X rT cT)
           = map2 (-) (cent_targets cT) (col_sums (length cT) (Xc (round_final X rT cT)))
       \<and> sum_list (row_def (round_final X rT cT)) - sum_list (col_def (round_final X rT cT))
           = sum_list (cent_targets rT) - sum_list (cent_targets cT)"
proof -
  let ?ini = "round_init X rT cT"
  let ?idx = "cell_order (length rT) (length cT) (frac_remainders X)"
  let ?s = "round_final X rT cT"
  have sub: "set ?idx \<subseteq> {..<length (cent_targets rT)} \<times> {..<length (cent_targets cT)}"
    by (simp add: set_cell_order cent_targets_def)
  have inv: "round_inv (cent_targets rT) (cent_targets cT) ?s"
    unfolding round_final_def
    using round_init_inv [OF assms] sub
    by (simp add: greedy_pass_inv cent_targets_def)
  then have sh: "shape_ok (length rT) (length cT) ?s"
    and ro: "rows_ok (cent_targets rT) ?s" and co: "cols_ok (cent_targets cT) ?s"
    by (simp_all add: round_inv_def cent_targets_def)
  have "\<exists>k\<le>length ?idx. greedy_pass ?idx ?ini = fold cell_step (take k ?idx) ?ini"
    by (rule greedy_pass_prefix)
  then have 1: "\<exists>k\<le>length rT * length cT. ?s = fold cell_step (take k ?idx) ?ini"
    by (simp add: length_cell_order round_final_def)
  have 2: "row_def ?s = map2 (-) (cent_targets rT) (row_sums (Xc ?s))"
  proof (rule nth_equalityI)
    show "length (row_def ?s) = length (map2 (-) (cent_targets rT) (row_sums (Xc ?s)))"
      using sh by (simp add: shape_ok_def mat_shape_def cent_targets_def)
    fix i assume "i < length (row_def ?s)"
    then have i: "i < length rT" using sh by (simp add: shape_ok_def)
    then have "sum_list (Xc ?s ! i) + row_def ?s ! i = cent_targets rT ! i"
      using ro by (simp add: rows_ok_def cent_targets_def)
    then show "row_def ?s ! i = map2 (-) (cent_targets rT) (row_sums (Xc ?s)) ! i"
      using i sh by (simp add: shape_ok_def mat_shape_def cent_targets_def row_sums_def)
  qed
  have 3: "col_def ?s = map2 (-) (cent_targets cT) (col_sums (length cT) (Xc ?s))"
  proof (rule nth_equalityI)
    show "length (col_def ?s) = length (map2 (-) (cent_targets cT) (col_sums (length cT) (Xc ?s)))"
      using sh by (simp add: shape_ok_def cent_targets_def)
    fix j assume "j < length (col_def ?s)"
    then have j: "j < length cT" using sh by (simp add: shape_ok_def)
    then have "sum_list (map (\<lambda>row. row ! j) (Xc ?s)) + col_def ?s ! j = cent_targets cT ! j"
      using co by (simp add: cols_ok_def cent_targets_def)
    then show "col_def ?s ! j = map2 (-) (cent_targets cT) (col_sums (length cT) (Xc ?s)) ! j"
      using j by (simp add: cent_targets_def col_sums_nth)
  qed
  have sub': "set ?idx \<subseteq> {..<length rT} \<times> {..<length cT}" by (simp add: set_cell_order)
  have 4: "sum_list (row_def ?s) - sum_list (col_def ?s)
           = sum_list (cent_targets rT) - sum_list (cent_targets cT)"
    unfolding round_final_def
    using greedy_pass_diff [OF round_init_shape [OF assms] sub'] round_init_diff [OF assms]
    by simp
  from 1 2 3 4 show ?thesis by blast
qed

lemma floor_cents_nonneg:
  assumes "\<forall>row\<in>set X. \<forall>x\<in>set row. 0 \<le> x" "i < length X" "j < length (X ! i)"
  shows "0 \<le> floor_cents X ! i ! j"
proof -
  have "X ! i \<in> set X" "X ! i ! j \<in> set (X ! i)" using assms(2,3) by simp_all
  with assms(1) have "0 \<le> X ! i ! j" by blast
  then show ?thesis using assms(2,3) by (simp add: floor_cents_def)
qed

text \<open>
  Claim C1, amended. Let \<^verbatim>\<open>X\<close> be a non-negative matrix of the targets' shape, let the cent
  targets have equal sums, and let no row or column of \<^verbatim>\<open>floor(100 X)\<close> exceed its cent
  target (every initial deficit is non-negative). Then the returned matrix is \<^verbatim>\<open>Xc / 100\<close>
  for an integer matrix \<^verbatim>\<open>Xc\<close> of non-negative entries whose rows sum exactly to the row
  cent targets and whose columns sum exactly to the column cent targets.
\<close>

theorem round_exact_when_feasible:
  assumes shape: "mat_shape (length rT) (length cT) X"
    and nonneg: "\<forall>row\<in>set X. \<forall>x\<in>set row. 0 \<le> x"
    and feasible: "sum_list (cent_targets rT) = sum_list (cent_targets cT)"
    and rows_le: "list_all2 (\<le>) (row_sums (floor_cents X)) (cent_targets rT)"
    and cols_le: "list_all2 (\<le>) (col_sums (length cT) (floor_cents X)) (cent_targets cT)"
  shows "round_matrix_exact_cents X rT cT
           = map (map (\<lambda>c. real_of_int c / 100)) (Xc (round_final X rT cT))
       \<and> mat_shape (length rT) (length cT) (Xc (round_final X rT cT))
       \<and> (\<forall>row\<in>set (Xc (round_final X rT cT)). \<forall>c\<in>set row. 0 \<le> c)
       \<and> row_sums (Xc (round_final X rT cT)) = cent_targets rT
       \<and> col_sums (length cT) (Xc (round_final X rT cT)) = cent_targets cT"
proof -
  let ?ini = "round_init X rT cT"
  let ?idx = "cell_order (length rT) (length cT) (frac_remainders X)"
  let ?s = "round_final X rT cT"
  let ?rT = "cent_targets rT" and ?cT = "cent_targets cT"
  have lenT: "length ?rT = length rT" "length ?cT = length cT" by (simp_all add: cent_targets_def)
  have inv0: "round_inv ?rT ?cT ?ini" using shape by (rule round_init_inv)
  have nn0: "defs_nonneg ?ini" using shape rows_le cols_le by (rule round_init_nonneg)
  have bal0: "sum_list (row_def ?ini) = sum_list (col_def ?ini)"
    using round_init_diff [OF shape] feasible by simp
  have sub: "set ?idx \<subseteq> {..<length ?rT} \<times> {..<length ?cT}"
    by (simp add: set_cell_order lenT)
  have inv: "round_inv ?rT ?cT ?s"
    unfolding round_final_def using inv0 sub by (rule greedy_pass_inv)
  then have sh: "mat_shape (length rT) (length cT) (Xc ?s)"
    and lens: "length (row_def ?s) = length rT" "length (col_def ?s) = length cT"
    and ro: "rows_ok ?rT ?s" and co: "cols_ok ?cT ?s"
    by (simp_all add: round_inv_def shape_ok_def lenT)
  have clear: "(\<forall>d\<in>set (row_def ?s). d = 0) \<and> (\<forall>d\<in>set (col_def ?s). d = 0)"
    unfolding round_final_def
    using greedy_pass_clears [OF inv0 nn0 bal0, of "frac_remainders X"] by (simp add: lenT)
  have rows: "row_sums (Xc ?s) = ?rT"
  proof (rule nth_equalityI)
    show "length (row_sums (Xc ?s)) = length ?rT" using sh by (simp add: mat_shape_def lenT)
    fix i assume "i < length (row_sums (Xc ?s))"
    then have i: "i < length rT" using sh by (simp add: mat_shape_def)
    then have "row_def ?s ! i = 0" using clear lens by simp
    moreover have "sum_list (Xc ?s ! i) + row_def ?s ! i = ?rT ! i"
      using ro i by (simp add: rows_ok_def lenT)
    ultimately show "row_sums (Xc ?s) ! i = ?rT ! i"
      using i sh by (simp add: row_sums_def mat_shape_def)
  qed
  have cols: "col_sums (length cT) (Xc ?s) = ?cT"
  proof (rule nth_equalityI)
    show "length (col_sums (length cT) (Xc ?s)) = length ?cT" by (simp add: lenT)
    fix j assume "j < length (col_sums (length cT) (Xc ?s))"
    then have j: "j < length cT" by simp
    then have "col_def ?s ! j = 0" using clear lens by simp
    moreover have "sum_list (map (\<lambda>row. row ! j) (Xc ?s)) + col_def ?s ! j = ?cT ! j"
      using co j by (simp add: cols_ok_def lenT)
    ultimately show "col_sums (length cT) (Xc ?s) ! j = ?cT ! j"
      using j by (simp add: col_sums_nth)
  qed
  have pos: "\<forall>row\<in>set (Xc ?s). \<forall>c\<in>set row. 0 \<le> c"
  proof (intro ballI)
    fix row c assume "row \<in> set (Xc ?s)" "c \<in> set row"
    then obtain i j where i: "i < length (Xc ?s)" "row = Xc ?s ! i"
      and j: "j < length row" "c = row ! j"
      by (auto simp: in_set_conv_nth)
    have l: "length (Xc ?s) = length X" "length (Xc ?s ! i) = length (X ! i)"
      using greedy_pass_lengths [of ?idx ?ini i] i
      by (simp_all add: round_final_def round_init_def Let_def floor_cents_def)
    have "0 \<le> floor_cents X ! i ! j"
      using nonneg i j l by (intro floor_cents_nonneg) simp_all
    also have "\<dots> = Xc ?ini ! i ! j" by (simp add: round_init_def Let_def)
    also have "\<dots> \<le> Xc ?s ! i ! j" unfolding round_final_def by (rule greedy_pass_Xc_ge)
    finally show "0 \<le> c" using i j by simp
  qed
  from sh pos rows cols show ?thesis by (simp add: round_matrix_exact_cents_def)
qed

text \<open>
  The spec's example: row targets 50.00 and 50.00, column targets 60.00 and 40.00, and a
  matrix whose margins are these targets.
\<close>

theorem round_exact_when_feasible_witness:
  "round_matrix_exact_cents [[30004 / 1000, 19996 / 1000], [29996 / 1000, 20004 / 1000]] [50, 50] [60, 40]
     = [[30, 20], [30, 20]]
   \<and> row_sums (Xc (round_final [[30004 / 1000, 19996 / 1000], [29996 / 1000, 20004 / 1000]] [50, 50] [60, 40]))
     = [5000, 5000]
   \<and> col_sums 2 (Xc (round_final [[30004 / 1000, 19996 / 1000], [29996 / 1000, 20004 / 1000]] [50, 50] [60, 40]))
     = [6000, 4000]"
proof -
  let ?X = "[[30004 / 1000, 19996 / 1000], [29996 / 1000, 20004 / 1000]] :: real matrix"
  have ct: "cent_targets [50, 50] = [5000, 5000]" "cent_targets [60, 40] = [6000, 4000]"
    by (simp_all add: cent_targets_def rint_def)
  have fc: "floor_cents ?X = [[3000, 1999], [2999, 2000]]"
    by (simp add: floor_cents_def)
  have h1: "mat_shape (length [50, 50 :: real]) (length [60, 40 :: real]) ?X"
    by (simp add: mat_shape_def)
  have h2: "\<forall>row\<in>set ?X. \<forall>x\<in>set row. 0 \<le> x" by simp
  have h3: "sum_list (cent_targets [50, 50]) = sum_list (cent_targets [60, 40])"
    by (simp add: ct)
  have h4: "list_all2 (\<le>) (row_sums (floor_cents ?X)) (cent_targets [50, 50])"
    unfolding fc ct by (simp add: row_sums_def)
  have h5: "list_all2 (\<le>) (col_sums (length [60, 40 :: real]) (floor_cents ?X)) (cent_targets [60, 40])"
    unfolding fc ct by (simp add: col_sums_def upt_rec)
  have x: "Xc (round_final ?X [50, 50] [60, 40]) = [[3000, 2000], [3000, 2000]]"
    by code_simp
  from round_exact_when_feasible [OF h1 h2 h3 h4 h5] show ?thesis
    unfolding ct x by (simp add: numeral_2_eq_2)
qed

text \<open>
  Claim C1 as stated fails for a non-negative matrix that already exceeds its targets:
  the one by one matrix 10.00 with both targets 1.00 (100 cents each, so the cent sums
  agree) is returned unchanged, and its row and its column sum to 1000 cents.
\<close>

theorem round_unfeasible_matrix_counterexample:
  "cent_targets [1] = [100]
   \<and> round_matrix_exact_cents [[10]] [1] [1] = [[10]]
   \<and> row_sums (Xc (round_final [[10]] [1] [1])) = [1000]
   \<and> col_sums 1 (Xc (round_final [[10]] [1] [1])) = [1000]"
  by (simp add: cent_targets_def rint_def round_matrix_exact_cents_def round_final_def
      round_init_def floor_cents_def frac_remainders_def cell_order_def all_cells_def
      cell_step_def row_sums_def col_sums_def)

text \<open>
  The spec's mismatch: row targets summing to 10000 cents, column targets to 9900; the
  pass ends with a residual of exactly 100 cents.
\<close>

theorem round_mismatch_residual_witness:
  "sum_list (cent_targets [50, 50]) - sum_list (cent_targets [60, 39]) = 100
   \<and> sum_list (row_def (round_final [[30004 / 1000, 19996 / 1000], [29996 / 1000, 20004 / 1000]] [50, 50] [60, 39]))
     - sum_list (col_def (round_final [[30004 / 1000, 19996 / 1000], [29996 / 1000, 20004 / 1000]] [50, 50] [60, 39]))
     = 100"
proof -
  let ?X = "[[30004 / 1000, 19996 / 1000], [29996 / 1000, 20004 / 1000]] :: real matrix"
  have ct: "cent_targets [50, 50] = [5000, 5000]" "cent_targets [60, 39] = [6000, 3900]"
    by (simp_all add: cent_targets_def rint_def)
  have h1: "mat_shape (length [50, 50 :: real]) (length [60, 39 :: real]) ?X"
    by (simp add: mat_shape_def)
  note r = round_mismatch_residual [OF h1, THEN conjunct2, THEN conjunct2, THEN conjunct2]
  show ?thesis using r unfolding ct by simp
qed


lemma ipf_float_seed:
  assumes "case seed of None \<Rightarrow> True | Some A \<Rightarrow> float_seed (length rT) (length cT) A"
  shows "ipf rT cT seed n tol
         = Inr (ipf_loop n rT cT tol (ipf_start rT cT (seed_rows rT cT seed)))"
proof (cases seed)
  case None
  then show ?thesis by (simp add: ipf_def seed_rows_def)
next
  case (Some A)
  with assms obtain S where A: "A = Float64 (length rT) (length cT) S"
    by (cases A) (simp_all add: float_seed_def)
  show ?thesis
    unfolding Some A
    by (simp add: ipf_def seed_rows_def broadcasts_def broadcast_to_def)
qed



text \<open>
  Claim C3 as stated covers every seed. An integer seed of the right shape stops \<^verbatim>\<open>ipf\<close>
  with \<^verbatim>\<open>UFuncTypeError\<close> at the first in-place product, and a float seed of shape
  \<^verbatim>\<open>(1, 3)\<close> against two row targets stops it with numpy's \<^verbatim>\<open>ValueError\<close>; neither returns
  an iterate.
\<close>

theorem ipf_seed_counterexample:
  "ipf [1, 2] [2, 2] (Some (Int64 2 2 [[1, 1], [1, 1]])) default_max_iter default_tol
   = Inl UFuncTypeError
   \<and> ipf [1, 2] [2, 2] (Some (Float64 1 3 [[1, 2, 3]])) default_max_iter default_tol
     = Inl BroadcastValueError"
  by (simp add: ipf_def broadcasts_def)

text \<open>
  A single row target is broadcast over the rows of a seed with more rows, as numpy
  does: each row is scaled to the one target.
\<close>

lemma ipf_broadcast_example:
  "ipf [6] [4, 8] (Some (Float64 2 2 [[1, 1], [1, 1]])) 0 default_tol
   = Inr [[2, 4], [2, 4]]"
  by (simp add: ipf_def broadcasts_def broadcast_to_def ipf_start_def row_scale_def
      col_scale_def row_sums_def col_sums_def unit_if_zero_def numeral_2_eq_2)

lemma unit_if_zero_pos: "0 \<le> s \<Longrightarrow> 0 < unit_if_zero s"
  by (simp add: unit_if_zero_def)

lemma row_scale_nonneg:
  assumes "\<forall>t\<in>set rT. 0 \<le> t" "mat_nonneg X"
  shows "mat_nonneg (row_scale rT X)"
proof -
  have f: "0 \<le> fi" if "fi \<in> set (map2 (/) rT (map unit_if_zero (row_sums X)))" for fi
  proof -
    from that obtain t u where tu: "(t, u) \<in> set (zip rT (map unit_if_zero (row_sums X)))" "fi = t / u"
      by auto
    from tu(1) have "t \<in> set rT" "u \<in> set (map unit_if_zero (row_sums X))"
      by (auto dest: set_zip_leftD set_zip_rightD)
    with tu(2) obtain s where ts: "t \<in> set rT" "s \<in> set (row_sums X)" "fi = t / unit_if_zero s"
      by auto
    from ts(2) obtain r where "r \<in> set X" "s = sum_list r" by (auto simp: row_sums_def)
    with assms(2) have "0 \<le> s" by (simp add: mat_nonneg_def sum_list_nonneg)
    with ts assms(1) show ?thesis by (simp add: unit_if_zero_pos less_imp_le)
  qed
  show ?thesis
    unfolding mat_nonneg_def row_scale_def Let_def
  proof (intro ballI)
    fix row x
    assume "row \<in> set (map2 (\<lambda>row fi. map (\<lambda>x. x * fi) row) X (map2 (/) rT (map unit_if_zero (row_sums X))))"
      and x: "x \<in> set row"
    then obtain r fi where
      rf: "(r, fi) \<in> set (zip X (map2 (/) rT (map unit_if_zero (row_sums X))))"
      and re: "row = map (\<lambda>x. x * fi) r"
      by auto
    from rf have "r \<in> set X" by (rule set_zip_leftD)
    moreover from rf have "fi \<in> set (map2 (/) rT (map unit_if_zero (row_sums X)))"
      by (rule set_zip_rightD)
    ultimately have r: "r \<in> set X" "fi \<in> set (map2 (/) rT (map unit_if_zero (row_sums X)))"
      "row = map (\<lambda>x. x * fi) r"
      using re by simp_all
    from x r(3) obtain y where "y \<in> set r" "x = y * fi" by auto
    with r(1) assms(2) f [OF r(2)] show "0 \<le> x" by (simp add: mat_nonneg_def)
  qed
qed

lemma col_sum_nonneg:
  assumes "mat_nonneg X" "list_all (\<lambda>row. length row = nC) X" "j < nC"
  shows "0 \<le> sum_list (map (\<lambda>row. row ! j) X)"
proof (rule sum_list_nonneg)
  fix x assume "x \<in> set (map (\<lambda>row. row ! j) X)"
  then obtain row where "row \<in> set X" "x = row ! j" by auto
  with assms show "0 \<le> x" by (auto simp: mat_nonneg_def list_all_iff)
qed

lemma col_scale_nonneg:
  assumes "\<forall>t\<in>set cT. 0 \<le> t" "mat_nonneg X" "list_all (\<lambda>row. length row = length cT) X"
  shows "mat_nonneg (col_scale cT X)"
proof -
  have f: "0 \<le> fj" if "fj \<in> set (map2 (/) cT (map unit_if_zero (col_sums (length cT) X)))" for fj
  proof -
    from that obtain j where j: "j < length cT"
      "fj = cT ! j / unit_if_zero (col_sums (length cT) X ! j)"
      by (auto simp: in_set_zip)
    have "0 \<le> col_sums (length cT) X ! j"
      using col_sum_nonneg [OF assms(2,3) j(1)] j(1) by (simp add: col_sums_def)
    with j assms(1) show ?thesis by (simp add: unit_if_zero_pos less_imp_le)
  qed
  show ?thesis
    unfolding mat_nonneg_def col_scale_def Let_def
  proof (intro ballI)
    fix row x
    assume "row \<in> set (map (\<lambda>row. map2 (*) row (map2 (/) cT (map unit_if_zero (col_sums (length cT) X)))) X)"
      and x: "x \<in> set row"
    then obtain r where r: "r \<in> set X"
      "row = map2 (*) r (map2 (/) cT (map unit_if_zero (col_sums (length cT) X)))"
      by auto
    from x r(2) obtain y fj where
      yf: "(y, fj) \<in> set (zip r (map2 (/) cT (map unit_if_zero (col_sums (length cT) X))))"
      and xe: "x = y * fj"
      by auto
    from yf have "y \<in> set r" by (rule set_zip_leftD)
    moreover from yf have "fj \<in> set (map2 (/) cT (map unit_if_zero (col_sums (length cT) X)))"
      by (rule set_zip_rightD)
    ultimately show "0 \<le> x" using r(1) assms(2) f xe by (simp add: mat_nonneg_def)
  qed
qed

lemma row_scale_shape:
  "mat_shape (length rT) nC X \<Longrightarrow> mat_shape (length rT) nC (row_scale rT X)"
  by (auto simp: mat_shape_def row_scale_def Let_def list_all_length)

lemma col_scale_shape:
  "mat_shape nR (length cT) X \<Longrightarrow> mat_shape nR (length cT) (col_scale cT X)"
  by (auto simp: mat_shape_def col_scale_def Let_def list_all_length)

lemma ipf_step_good:
  assumes "\<forall>t\<in>set rT. 0 \<le> t" "\<forall>t\<in>set cT. 0 \<le> t"
    and "mat_shape (length rT) (length cT) X \<and> mat_nonneg X"
  shows "mat_shape (length rT) (length cT) (ipf_step rT cT X) \<and> mat_nonneg (ipf_step rT cT X)"
proof -
  have 1: "mat_shape (length rT) (length cT) (row_scale rT X)"
    using assms(3) by (simp add: row_scale_shape)
  have 2: "mat_nonneg (row_scale rT X)" using assms(1,3) by (simp add: row_scale_nonneg)
  from 1 have 3: "list_all (\<lambda>row. length row = length cT) (row_scale rT X)"
    by (simp add: mat_shape_def)
  show ?thesis unfolding ipf_step_def
    using col_scale_shape [OF 1] col_scale_nonneg [OF assms(2) 2 3] by simp
qed

lemma ipf_loop_good:
  assumes "\<forall>t\<in>set rT. 0 \<le> t" "\<forall>t\<in>set cT. 0 \<le> t"
    and "mat_shape (length rT) (length cT) X \<and> mat_nonneg X"
  shows "mat_shape (length rT) (length cT) (ipf_loop n rT cT tol X)
       \<and> mat_nonneg (ipf_loop n rT cT tol X)"
  using assms(3)
proof (induction n arbitrary: X)
  case 0
  then show ?case by simp
next
  case (Suc n)
  have g: "mat_shape (length rT) (length cT) (ipf_step rT cT X) \<and> mat_nonneg (ipf_step rT cT X)"
    using assms(1,2) Suc.prems by (rule ipf_step_good)
  from Suc.IH [OF g] g show ?case by (simp add: Let_def)
qed

lemma default_seed_good:
  "mat_shape (length rT) (length cT) (default_seed rT cT) \<and> mat_nonneg (default_seed rT cT)"
  by (auto simp: default_seed_def Let_def outer_def mat_shape_def mat_nonneg_def list_all_iff
      positive_ind_def)

text \<open>
  Claim C9. When the row targets, the column targets and the seed (if one is given, a
  float array of shape \<^verbatim>\<open>nR\<close> by \<^verbatim>\<open>nC\<close>) are element-wise non-negative, the row rescaling
  and the column rescaling each preserve element-wise non-negativity, and \<^verbatim>\<open>ipf\<close> returns
  a matrix of shape \<^verbatim>\<open>nR\<close> by \<^verbatim>\<open>nC\<close> whose every entry is non-negative; the default seed is
  covered.
\<close>

theorem ipf_nonneg:
  assumes rT: "\<forall>t\<in>set rT. 0 \<le> t" and cT: "\<forall>t\<in>set cT. 0 \<le> t"
    and seed: "case seed of None \<Rightarrow> True
               | Some A \<Rightarrow> float_seed (length rT) (length cT) A \<and> mat_nonneg (nd_rows A)"
  shows "(\<forall>X. mat_nonneg X \<longrightarrow> mat_nonneg (row_scale rT X))
       \<and> (\<forall>X. mat_shape (length rT) (length cT) X \<and> mat_nonneg X \<longrightarrow> mat_nonneg (col_scale cT X))
       \<and> (\<exists>M. ipf rT cT seed max_iter tol = Inr M
              \<and> mat_shape (length rT) (length cT) M \<and> mat_nonneg M)"
proof -
  have a: "\<forall>X. mat_nonneg X \<longrightarrow> mat_nonneg (row_scale rT X)"
    using rT by (simp add: row_scale_nonneg)
  have b: "\<forall>X. mat_shape (length rT) (length cT) X \<and> mat_nonneg X \<longrightarrow> mat_nonneg (col_scale cT X)"
    using cT by (simp add: col_scale_nonneg mat_shape_def)
  define S where "S = seed_rows rT cT seed"
  have S: "mat_shape (length rT) (length cT) S \<and> mat_nonneg S"
  proof (cases seed)
    case None
    then show ?thesis using default_seed_good [of rT cT] by (simp add: S_def seed_rows_def)
  next
    case (Some A)
    with seed have "float_seed (length rT) (length cT) A" "mat_nonneg (nd_rows A)" by simp_all
    then show ?thesis
      unfolding S_def seed_rows_def Some by (cases A) (simp_all add: float_seed_def)
  qed
  have fs: "case seed of None \<Rightarrow> True | Some A \<Rightarrow> float_seed (length rT) (length cT) A"
    using seed by (cases seed) simp_all
  have "ipf_start rT cT S = ipf_step rT cT S"
    by (simp add: ipf_start_def ipf_step_def)
  then have "mat_shape (length rT) (length cT) (ipf_start rT cT S) \<and> mat_nonneg (ipf_start rT cT S)"
    using ipf_step_good [OF rT cT S] by simp
  from ipf_loop_good [OF rT cT this, of max_iter tol]
  have "ipf rT cT seed max_iter tol = Inr (ipf_loop max_iter rT cT tol (ipf_start rT cT S))
      \<and> mat_shape (length rT) (length cT) (ipf_loop max_iter rT cT tol (ipf_start rT cT S))
      \<and> mat_nonneg (ipf_loop max_iter rT cT tol (ipf_start rT cT S))"
    by (simp add: ipf_float_seed [OF fs] S_def)
  then have "\<exists>M. ipf rT cT seed max_iter tol = Inr M
              \<and> mat_shape (length rT) (length cT) M \<and> mat_nonneg M"
    by blast
  with a b show ?thesis by blast
qed

text \<open>A seed with a zero entry, and the default seed under the default cap.\<close>

theorem ipf_nonneg_witness:
  "mat_nonneg [[1, 3], [0, 2 :: real]]
   \<and> ipf [1, 2] [2, 2] (Some (Float64 2 2 [[1, 3], [0, 2]])) 1 default_tol
     = Inr [[2, 6 / 31], [0, 56 / 31]]
   \<and> mat_nonneg [[2, 6 / 31], [0, 56 / 31 :: real]]
   \<and> (\<exists>M. ipf [1, 2] [2, 2] None default_max_iter default_tol = Inr M \<and> mat_nonneg M)"
proof -
  let ?A = "Float64 2 2 [[1, 3], [0, 2]]"
  have h1: "\<forall>t\<in>set [1, 2 :: real]. 0 \<le> t" and h2: "\<forall>t\<in>set [2, 2 :: real]. 0 \<le> t" by simp_all
  have h3: "case Some ?A of None \<Rightarrow> True
            | Some A \<Rightarrow> float_seed (length [1, 2 :: real]) (length [2, 2 :: real]) A
                        \<and> mat_nonneg (nd_rows A)"
    by (simp add: float_seed_def mat_shape_def mat_nonneg_def)
  have h4: "case None of None \<Rightarrow> True
            | Some A \<Rightarrow> float_seed (length [1, 2 :: real]) (length [2, 2 :: real]) A
                        \<and> mat_nonneg (nd_rows A)"
    by simp
  have v: "ipf [1, 2] [2, 2] (Some ?A) 1 default_tol = Inr [[2, 6 / 31], [0, 56 / 31]]"
    by code_simp
  have n: "mat_nonneg [[1, 3], [0, 2 :: real]]" by (simp add: mat_nonneg_def)
  from ipf_nonneg [OF h1 h2 h3, of 1 default_tol]
  obtain M where M: "ipf [1, 2] [2, 2] (Some ?A) 1 default_tol = Inr M" "mat_nonneg M"
    by blast
  from M v have m: "mat_nonneg [[2, 6 / 31], [0, 56 / 31 :: real]]" by simp
  from ipf_nonneg [OF h1 h2 h4, of default_max_iter default_tol]
  have "\<exists>M. ipf [1, 2] [2, 2] None default_max_iter default_tol = Inr M \<and> mat_nonneg M"
    by blast
  with v n m show ?thesis by blast
qed

lemma set_argsort: "set (argsort a) = {..<length a}"
  by (auto simp: argsort_def)

lemma distinct_argsort: "distinct (argsort a)"
  by (simp add: argsort_def)

lemma length_argsort: "length (argsort a) = length a"
  by (simp add: argsort_def)

lemma sum_ones_at:
  assumes "distinct idx" "set idx \<subseteq> {..<n}"
  shows "sum_list (ones_at n idx) = int (length idx)"
proof -
  have "sum_list (ones_at n idx) = (\<Sum>i\<in>{0..<n}. if i \<in> set idx then 1 else 0)"
    by (simp add: ones_at_def interv_sum_list_conv_sum_set_nat)
  also have "\<dots> = int (card ({0..<n} \<inter> set idx))"
    by (simp add: sum.inter_restrict [symmetric])
  also have "{0..<n} \<inter> set idx = set idx" using assms(2) by auto
  also have "card (set idx) = length idx" using assms(1) by (rule distinct_card)
  finally show ?thesis .
qed

lemma ones_at_range: "x \<in> set (ones_at n idx) \<Longrightarrow> x = 0 \<or> x = 1"
  by (auto simp: ones_at_def)

text \<open>
  The arithmetic of the largest-remainder step: shares \<open>raw\<close> that sum to the integer
  \<open>C\<close> leave a shortfall between 0 and \<open>n - 1\<close> after flooring, and one more cent for
  the first \<open>remain\<close> indices of any ordering restores the sum.
\<close>

lemma floor_shortfall:
  fixes raw :: "real list" and C :: int
  assumes "sum_list raw = real_of_int C"
  shows "0 \<le> C - sum_list (map floor raw)"
    and "raw \<noteq> [] \<Longrightarrow> C - sum_list (map floor raw) < int (length raw)"
proof -
  have le: "real_of_int (sum_list (map floor raw)) \<le> sum_list raw"
    by (induction raw) (simp_all add: add_mono)
  with assms show "0 \<le> C - sum_list (map floor raw)" by linarith
  have lt: "raw \<noteq> [] \<Longrightarrow> sum_list raw < real_of_int (sum_list (map floor raw)) + real (length raw)"
  proof (induction raw rule: list_nonempty_induct)
    case (single x)
    then show ?case by simp
  next
    case (cons x xs)
    have "x < real_of_int \<lfloor>x\<rfloor> + 1" by linarith
    with cons.IH show ?case by simp linarith
  qed
  show "C - sum_list (map floor raw) < int (length raw)" if "raw \<noteq> []"
    using lt [OF that] assms by linarith
qed

lemma sum_list_map2_add_int:
  fixes xs ys :: "int list"
  shows "length xs = length ys \<Longrightarrow> sum_list (map2 (+) xs ys) = sum_list xs + sum_list ys"
  by (induction xs ys rule: list_induct2) simp_all

lemma length_lr_add: "length (lr_add n remain rema) = n"
  by (simp add: lr_add_def ones_at_def)

lemma lr_add_range: "x \<in> set (lr_add n remain rema) \<Longrightarrow> x = 0 \<or> x = 1"
  by (auto simp: lr_add_def dest: ones_at_range split: if_splits)

lemma sum_lr_add:
  assumes "0 \<le> remain" "remain \<le> int n" "length rema = n"
  shows "sum_list (lr_add n remain rema) = remain"
proof (cases "remain > 0")
  case False
  with assms(1) show ?thesis by (simp add: lr_add_def sum_list_replicate)
next
  case True
  let ?idx = "take (nat remain) (argsort (map uminus rema))"
  have d: "distinct ?idx" by (simp add: distinct_argsort)
  have "set ?idx \<subseteq> set (argsort (map uminus rema))" by (rule set_take_subset)
  then have s: "set ?idx \<subseteq> {..<n}" using assms(3) by (simp add: set_argsort)
  have l: "length ?idx = nat remain" using assms(2,3) by (simp add: length_argsort)
  from True sum_ones_at [OF d s] l show ?thesis by (simp add: lr_add_def)
qed

lemma allocate_unfold:
  assumes "0 < premium_total" "loc_list \<noteq> []"
  shows "allocate_cents_for_coverage premium_total tiv loc_list =
     (let cents = alloc_cents (map (\<lambda>l. dict_get tiv l 0) loc_list) (rint (premium_total * 100))
      in if sum_list cents = rint (premium_total * 100)
         then Inr (dict_of (zip loc_list (map (\<lambda>c. real_of_int c / 100) cents)))
         else Inl AssertionError)"
proof -
  have c: "\<not> length loc_list = 0" "\<not> premium_total \<le> 0" using assms by simp_all
  have l: "length (map (\<lambda>l. dict_get tiv l 0) loc_list) = length loc_list" by simp
  show ?thesis
    unfolding allocate_cents_for_coverage_def alloc_cents_def l alloc_cents_n_def
      alloc_weights_def lr_add_def Let_def
    using c by (simp only: if_False)
qed

lemma length_alloc_weights: "length (alloc_weights (length tivs) tivs) = length tivs"
  by (simp add: alloc_weights_def)

lemma alloc_weights_nth:
  "i < length tivs \<Longrightarrow> alloc_weights (length tivs) tivs ! i = weight_share tivs i"
  by (simp add: alloc_weights_def weight_share_def)

lemma sum_list_divide_const:
  fixes xs :: "real list"
  shows "sum_list (map (\<lambda>t. t / c) xs) = sum_list xs / c"
  by (induction xs) (simp_all add: add_divide_distrib)

lemma sum_alloc_weights: "tivs \<noteq> [] \<Longrightarrow> sum_list (alloc_weights (length tivs) tivs) = 1"
  by (simp add: alloc_weights_def sum_list_divide_const sum_list_replicate)

lemma alloc_weights_nonneg:
  assumes "\<forall>t\<in>set tivs. 0 \<le> t" "w \<in> set (alloc_weights (length tivs) tivs)"
  shows "0 \<le> w"
proof (cases "sum_list tivs \<le> 0")
  case True
  with assms(2) show ?thesis by (auto simp: alloc_weights_def)
next
  case False
  with assms(2) obtain t where "t \<in> set tivs" "w = t / sum_list tivs"
    by (auto simp: alloc_weights_def)
  with assms(1) False show ?thesis by simp
qed

lemma length_alloc_cents: "length (alloc_cents tivs C) = length tivs"
  by (simp add: alloc_cents_def alloc_cents_n_def Let_def length_lr_add length_alloc_weights)

lemma sum_alloc_cents:
  assumes "tivs \<noteq> []"
  shows "sum_list (alloc_cents tivs C) = C"
proof -
  let ?raw = "map (\<lambda>w. w * real_of_int C) (alloc_weights (length tivs) tivs)"
  let ?fl = "map floor ?raw"
  let ?rema = "map2 (\<lambda>r f. r - real_of_int f) ?raw ?fl"
  have raw: "sum_list ?raw = real_of_int C"
    using sum_alloc_weights [OF assms] by (simp add: sum_list_mult_const)
  have ne: "?raw \<noteq> []" using assms by (simp add: alloc_weights_def)
  have len: "length ?raw = length tivs" by (simp add: length_alloc_weights)
  have r0: "0 \<le> C - sum_list ?fl" using floor_shortfall(1) [OF raw] .
  have r1: "C - sum_list ?fl \<le> int (length tivs)"
    using floor_shortfall(2) [OF raw ne] len by simp
  have "sum_list (lr_add (length tivs) (C - sum_list ?fl) ?rema) = C - sum_list ?fl"
    using r0 r1 by (intro sum_lr_add) (simp_all add: length_alloc_weights)
  then show ?thesis
    by (simp add: alloc_cents_def alloc_cents_n_def Let_def sum_list_map2_add_int length_lr_add
        length_alloc_weights)
qed

lemma alloc_cents_nth:
  assumes "i < length tivs"
  shows "alloc_cents tivs C ! i = \<lfloor>weight_share tivs i * real_of_int C\<rfloor>
       \<or> alloc_cents tivs C ! i = \<lfloor>weight_share tivs i * real_of_int C\<rfloor> + 1"
proof -
  let ?raw = "map (\<lambda>w. w * real_of_int C) (alloc_weights (length tivs) tivs)"
  let ?fl = "map floor ?raw"
  let ?rema = "map2 (\<lambda>r f. r - real_of_int f) ?raw ?fl"
  let ?add = "lr_add (length tivs) (C - sum_list ?fl) ?rema"
  have "?add ! i \<in> set ?add" using assms by (simp add: length_lr_add)
  then have a: "?add ! i = 0 \<or> ?add ! i = 1" by (rule lr_add_range)
  have "alloc_cents tivs C ! i = ?fl ! i + ?add ! i"
    using assms
    by (simp add: alloc_cents_def alloc_cents_n_def Let_def length_lr_add length_alloc_weights)
  also have "?fl ! i = \<lfloor>weight_share tivs i * real_of_int C\<rfloor>"
    using assms by (simp add: length_alloc_weights alloc_weights_nth)
  finally show ?thesis using a by auto
qed

lemma alloc_cents_nonneg:
  assumes "\<forall>t\<in>set tivs. 0 \<le> t" "0 \<le> C" "c \<in> set (alloc_cents tivs C)"
  shows "0 \<le> c"
proof -
  from assms(3) obtain i where i: "i < length tivs" "c = alloc_cents tivs C ! i"
    by (auto simp: in_set_conv_nth length_alloc_cents)
  have "alloc_weights (length tivs) tivs ! i \<in> set (alloc_weights (length tivs) tivs)"
    using i(1) by (simp add: length_alloc_weights)
  then have "0 \<le> alloc_weights (length tivs) tivs ! i" using assms(1) by (rule alloc_weights_nonneg [rotated])
  then have "0 \<le> weight_share tivs i * real_of_int C"
    using assms(2) i(1) by (simp add: alloc_weights_nth)
  then have "0 \<le> \<lfloor>weight_share tivs i * real_of_int C\<rfloor>" by simp
  with alloc_cents_nth [OF i(1), of C] i(2) show ?thesis by auto
qed

lemma rint_nonneg: "0 \<le> x \<Longrightarrow> 0 \<le> rint x"
  by (auto simp: rint_def Let_def)

lemma dict_of_append:
  "distinct (map fst (d @ items)) \<Longrightarrow>
     foldl (\<lambda>d kv. dict_set d (fst kv) (snd kv)) d items = d @ items"
proof (induction items arbitrary: d)
  case Nil
  then show ?case by simp
next
  case (Cons kv items)
  have "fst kv \<notin> fst ` set d" using Cons.prems by auto
  then have "map_of d (fst kv) = None" by (simp add: map_of_eq_None_iff)
  then have "dict_set d (fst kv) (snd kv) = d @ [kv]" by (simp add: dict_set_def)
  with Cons.IH [of "d @ [kv]"] Cons.prems show ?case by simp
qed

lemma dict_of_distinct: "distinct (map fst items) \<Longrightarrow> dict_of items = items"
  using dict_of_append [of "[]" items] by (simp add: dict_of_def)

lemma zip_replicate_zero:
  "zip locs (replicate (length locs) (0::real)) = map (\<lambda>l. (l, 0)) locs"
  by (induction locs) simp_all

lemma rint_zero: "rint 0 = 0"
  by (simp add: rint_def)

text \<open>
  Claim C2, amended. For every total \<^verbatim>\<open>P \<ge> 0\<close> and every list of \<^verbatim>\<open>n \<ge> 1\<close> entities with
  non-negative weights, \<^verbatim>\<open>allocate_cents_for_coverage\<close> returns (its assertion never fails)
  one amount per entity, \<^verbatim>\<open>cents[i] / 100\<close>, where the integers \<^verbatim>\<open>cents\<close> sum exactly to
  \<^verbatim>\<open>round(P * 100)\<close> and are non-negative; and when \<^verbatim>\<open>P > 0\<close> each \<^verbatim>\<open>cents[i]\<close> is the
  floor, or the floor plus one, of the entity's share of the rounded cent total,
  \<^verbatim>\<open>w[i] * round(P * 100) / sum(w)\<close> (\<^verbatim>\<open>round(P * 100) / n\<close> when the weights sum to zero).
\<close>

theorem allocate_exact_cents:
  assumes tot: "0 \<le> P" and ne: "locs \<noteq> []"
    and w: "\<forall>l\<in>set locs. 0 \<le> dict_get tiv l 0"
  shows "\<exists>cents. length cents = length locs
     \<and> allocate_cents_for_coverage P tiv locs
         = Inr (dict_of (zip locs (map (\<lambda>c. real_of_int c / 100) cents)))
     \<and> (distinct locs \<longrightarrow>
          allocate_cents_for_coverage P tiv locs
          = Inr (zip locs (map (\<lambda>c. real_of_int c / 100) cents)))
     \<and> sum_list cents = rint (P * 100)
     \<and> (\<forall>c\<in>set cents. 0 \<le> c)
     \<and> (0 < P \<longrightarrow>
          (\<forall>i<length locs.
             cents ! i
               = \<lfloor>weight_share (map (\<lambda>l. dict_get tiv l 0) locs) i * real_of_int (rint (P * 100))\<rfloor>
           \<or> cents ! i
               = \<lfloor>weight_share (map (\<lambda>l. dict_get tiv l 0) locs) i * real_of_int (rint (P * 100))\<rfloor> + 1))"
proof (cases "0 < P")
  case False
  with tot have z: "P = 0" by simp
  let ?cents = "replicate (length locs) (0::int)"
  have r: "allocate_cents_for_coverage P tiv locs
         = Inr (dict_of (zip locs (map (\<lambda>c. real_of_int c / 100) ?cents)))"
    using ne z by (simp add: allocate_cents_for_coverage_def Let_def zip_replicate_zero)
  have d: "distinct locs \<longrightarrow> dict_of (zip locs (map (\<lambda>c. real_of_int c / 100) ?cents))
            = zip locs (map (\<lambda>c. real_of_int c / 100) ?cents)"
    by (simp add: dict_of_distinct)
  have "sum_list ?cents = rint (P * 100)" by (simp add: z rint_zero sum_list_replicate)
  with r d False show ?thesis by (intro exI [of _ ?cents]) auto
next
  case True
  let ?tivs = "map (\<lambda>l. dict_get tiv l 0) locs"
  let ?C = "rint (P * 100)"
  let ?cents = "alloc_cents ?tivs ?C"
  have tne: "?tivs \<noteq> []" using ne by simp
  have s: "sum_list ?cents = ?C" using tne by (rule sum_alloc_cents)
  have l: "length ?cents = length locs" by (simp add: length_alloc_cents)
  have r: "allocate_cents_for_coverage P tiv locs
         = Inr (dict_of (zip locs (map (\<lambda>c. real_of_int c / 100) ?cents)))"
    using allocate_unfold [OF True ne, of tiv] s by (simp add: Let_def)
  have d: "distinct locs \<longrightarrow> dict_of (zip locs (map (\<lambda>c. real_of_int c / 100) ?cents))
            = zip locs (map (\<lambda>c. real_of_int c / 100) ?cents)"
    by (simp add: dict_of_distinct l)
  have C: "0 \<le> ?C" using tot by (simp add: rint_nonneg)
  have tn: "\<forall>t\<in>set ?tivs. 0 \<le> t" using w by simp
  have n: "\<forall>c\<in>set ?cents. 0 \<le> c"
    using alloc_cents_nonneg [OF tn C] by blast
  have f: "\<forall>i<length locs. ?cents ! i = \<lfloor>weight_share ?tivs i * real_of_int ?C\<rfloor>
            \<or> ?cents ! i = \<lfloor>weight_share ?tivs i * real_of_int ?C\<rfloor> + 1"
    using alloc_cents_nth [of _ ?tivs ?C] by simp
  from d r have d': "distinct locs \<longrightarrow> allocate_cents_for_coverage P tiv locs
            = Inr (zip locs (map (\<lambda>c. real_of_int c / 100) ?cents))"
    by simp
  from l r d' s n f show ?thesis by blast
qed

text \<open>The spec's example: 10.00 over three equal weights is 334, 333 and 333 cents.\<close>

theorem allocate_exact_cents_witness:
  "allocate_cents_for_coverage 10 [(''A'', 1), (''B'', 1), (''C'', 1)] [''A'', ''B'', ''C'']
     = Inr [(''A'', 334 / 100), (''B'', 333 / 100), (''C'', 333 / 100)]
   \<and> (\<exists>cents. length cents = 3
        \<and> allocate_cents_for_coverage 10 [(''A'', 1), (''B'', 1), (''C'', 1)] [''A'', ''B'', ''C'']
            = Inr (zip [''A'', ''B'', ''C''] (map (\<lambda>c. real_of_int c / 100) cents))
        \<and> sum_list cents = 1000)"
proof -
  have v: "allocate_cents_for_coverage 10 [(''A'', 1), (''B'', 1), (''C'', 1)] [''A'', ''B'', ''C'']
     = Inr [(''A'', 334 / 100), (''B'', 333 / 100), (''C'', 333 / 100)]"
    by code_simp
  have h1: "(0::real) \<le> 10" and h2: "[''A'', ''B'', ''C''] \<noteq> []" by simp_all
  have h3: "\<forall>l\<in>set [''A'', ''B'', ''C'']. 0 \<le> dict_get [(''A'', 1), (''B'', 1), (''C'', 1 :: real)] l 0"
    by (simp add: dict_get_def)
  have r: "rint (10 * 100) = 1000" by (simp add: rint_def)
  have d: "distinct [''A'', ''B'', ''C'']" by simp
  from allocate_exact_cents [OF h1 h2 h3] obtain cents where
    c: "length cents = length [''A'', ''B'', ''C'']"
      "distinct [''A'', ''B'', ''C''] \<longrightarrow>
         allocate_cents_for_coverage 10 [(''A'', 1), (''B'', 1), (''C'', 1)] [''A'', ''B'', ''C'']
         = Inr (zip [''A'', ''B'', ''C''] (map (\<lambda>c. real_of_int c / 100) cents))"
      "sum_list cents = rint (10 * 100)"
    by blast
  from c(1) have "length cents = 3" by simp
  moreover from c(2) d have
    "allocate_cents_for_coverage 10 [(''A'', 1), (''B'', 1), (''C'', 1)] [''A'', ''B'', ''C'']
         = Inr (zip [''A'', ''B'', ''C''] (map (\<lambda>c. real_of_int c / 100) cents))"
    by blast
  moreover from c(3) r have "sum_list cents = 1000" by simp
  ultimately show ?thesis using v by blast
qed

text \<open>
  Claim C2 as stated takes the share of the unrounded total, \<^verbatim>\<open>w[i] * P * 100 / sum(w)\<close>.
  For \<^verbatim>\<open>P = 0.1049\<close> and weights 86, 7, 7 the cent total rounds down to 10; the first
  entity receives 8 cents, while the floor of its exact share, 9.0214, is 9.
\<close>

theorem allocate_share_counterexample:
  "allocate_cents_for_coverage (1049 / 10000) [(''A'', 86), (''B'', 7), (''C'', 7)] [''A'', ''B'', ''C'']
     = Inr [(''A'', 8 / 100), (''B'', 1 / 100), (''C'', 1 / 100)]
   \<and> \<lfloor>86 * (1049 / 10000) * 100 / (86 + 7 + 7) :: real\<rfloor> = 9"
  by code_simp

lemma dict_get_const_map:
  "l \<in> set locs \<Longrightarrow> dict_get (map (\<lambda>l. (l, v)) locs) l d = v"
  by (induction locs) (auto simp: dict_get_def)

text \<open>
  Claim C6. For every total \<^verbatim>\<open>P > 0\<close> and \<^verbatim>\<open>n \<ge> 1\<close> entities whose weights are all zero
  (or absent from the map), the allocation is the one for equal weights: it coincides
  with the allocation under weight 1 for every entity, its cents sum to
  \<^verbatim>\<open>round(P * 100)\<close>, and each entity receives the floor, or the floor plus one, of
  \<^verbatim>\<open>(1 / n) * round(P * 100)\<close>.
\<close>

theorem allocate_zero_weights_uniform:
  assumes pos: "0 < P" and ne: "locs \<noteq> []"
    and zero: "\<forall>l\<in>set locs. dict_get tiv l 0 = 0"
  shows "allocate_cents_for_coverage P tiv locs
           = allocate_cents_for_coverage P (map (\<lambda>l. (l, 1)) locs) locs
     \<and> (\<exists>cents. length cents = length locs
          \<and> allocate_cents_for_coverage P tiv locs
              = Inr (dict_of (zip locs (map (\<lambda>c. real_of_int c / 100) cents)))
          \<and> sum_list cents = rint (P * 100)
          \<and> (\<forall>i<length locs.
                cents ! i = \<lfloor>1 / real (length locs) * real_of_int (rint (P * 100))\<rfloor>
              \<or> cents ! i = \<lfloor>1 / real (length locs) * real_of_int (rint (P * 100))\<rfloor> + 1))"
proof -
  let ?n = "length locs"
  let ?t0 = "map (\<lambda>l. dict_get tiv l 0) locs"
  let ?t1 = "map (\<lambda>l. dict_get (map (\<lambda>l. (l, 1::real)) locs) l 0) locs"
  let ?C = "rint (P * 100)"
  have n: "0 < ?n" using ne by simp
  have t0: "?t0 = replicate ?n 0" using zero by (simp add: map_replicate_const [symmetric])
  have t1: "?t1 = replicate ?n 1"
    by (simp add: map_replicate_const [symmetric] dict_get_const_map cong: map_cong)
  have w0: "alloc_weights ?n ?t0 = replicate ?n (1 / real ?n)"
    unfolding t0 by (simp add: alloc_weights_def sum_list_replicate)
  have w1: "alloc_weights ?n ?t1 = replicate ?n (1 / real ?n)"
    unfolding t1 using n by (simp add: alloc_weights_def sum_list_replicate)
  have c: "alloc_cents ?t0 ?C = alloc_cents ?t1 ?C"
    using w0 w1 by (simp add: alloc_cents_def alloc_cents_n_def)
  have eq: "allocate_cents_for_coverage P tiv locs
           = allocate_cents_for_coverage P (map (\<lambda>l. (l, 1)) locs) locs"
    unfolding allocate_unfold [OF pos ne] c ..
  have s: "sum_list (alloc_cents ?t0 ?C) = ?C" using ne by (intro sum_alloc_cents) simp
  have r: "allocate_cents_for_coverage P tiv locs
         = Inr (dict_of (zip locs (map (\<lambda>c. real_of_int c / 100) (alloc_cents ?t0 ?C))))"
    using allocate_unfold [OF pos ne, of tiv] s by (simp add: Let_def)
  have ws: "weight_share ?t0 i = 1 / real ?n" if "i < ?n" for i
    using that w0 alloc_weights_nth [of i ?t0] by simp
  have f: "\<forall>i<?n. alloc_cents ?t0 ?C ! i = \<lfloor>1 / real ?n * real_of_int ?C\<rfloor>
            \<or> alloc_cents ?t0 ?C ! i = \<lfloor>1 / real ?n * real_of_int ?C\<rfloor> + 1"
    using alloc_cents_nth [of _ ?t0 ?C] ws by simp
  have l: "length (alloc_cents ?t0 ?C) = ?n" by (simp add: length_alloc_cents)
  from eq l r s f show ?thesis by blast
qed

text \<open>The spec's example: 9.00 over three zero-weight entities is 300 cents each.\<close>

theorem allocate_zero_weights_uniform_witness:
  "allocate_cents_for_coverage 9 [(''A'', 0), (''B'', 0), (''C'', 0)] [''A'', ''B'', ''C'']
     = Inr [(''A'', 300 / 100), (''B'', 300 / 100), (''C'', 300 / 100)]
   \<and> allocate_cents_for_coverage 9 [(''A'', 0), (''B'', 0), (''C'', 0)] [''A'', ''B'', ''C'']
     = allocate_cents_for_coverage 9 [(''A'', 1), (''B'', 1), (''C'', 1)] [''A'', ''B'', ''C'']"
proof -
  have v: "allocate_cents_for_coverage 9 [(''A'', 0), (''B'', 0), (''C'', 0)] [''A'', ''B'', ''C'']
     = Inr [(''A'', 300 / 100), (''B'', 300 / 100), (''C'', 300 / 100)]"
    by code_simp
  have h1: "(0::real) < 9" and h2: "[''A'', ''B'', ''C''] \<noteq> []" by simp_all
  have h3: "\<forall>l\<in>set [''A'', ''B'', ''C'']. dict_get [(''A'', 0), (''B'', 0), (''C'', 0 :: real)] l 0 = 0"
    by (simp add: dict_get_def)
  from allocate_zero_weights_uniform [OF h1 h2 h3] v show ?thesis by simp
qed

lemma set_first_seen: "set (first_seen xs) = set xs"
  by (induction xs rule: first_seen.induct) auto

lemma distinct_first_seen: "distinct (first_seen xs)"
  by (induction xs rule: first_seen.induct) (auto simp: set_first_seen)

lemma unique_fold:
  assumes step: "\<And>seen out v0. step (seen, out) v0 =
       (let v = strip v0
        in if keep v \<and> v \<notin> seen then (insert v seen, out @ [v]) else (seen, out))"
  shows "snd (foldl step (seen, out) series)
       = out @ first_seen (filter (\<lambda>v. v \<notin> seen) (filter keep (map strip series)))"
proof (induction series arbitrary: seen out)
  case Nil
  then show ?case by simp
next
  case (Cons v0 series)
  let ?v = "strip v0"
  show ?case
  proof (cases "keep ?v \<and> ?v \<notin> seen")
    case True
    have "removeAll ?v (filter (\<lambda>v. v \<notin> seen) (filter keep (map strip series)))
        = filter (\<lambda>v. v \<notin> insert ?v seen) (filter keep (map strip series))"
      by (auto simp: removeAll_filter_not_eq intro: filter_cong)
    with True Cons.IH [of "insert ?v seen" "out @ [?v]"] show ?thesis
      by (simp add: step Let_def)
  next
    case False
    with Cons.IH [of seen out] show ?thesis by (auto simp: step Let_def)
  qed
qed

lemma tiv_unique_ordered_eq:
  "tiv_unique_ordered series = first_seen (filter tiv_keeps (map strip series))"
proof -
  have "snd (foldl tiv_unique_step ({}, []) series)
       = [] @ first_seen (filter (\<lambda>v. v \<notin> {}) (filter tiv_keeps (map strip series)))"
    by (rule unique_fold) (simp add: tiv_unique_step_def tiv_keeps_def)
  then show ?thesis by (simp add: tiv_unique_ordered_def)
qed

lemma ras_unique_ordered_eq:
  "ras_unique_ordered series = first_seen (filter ras_keeps (map strip series))"
proof -
  have "snd (foldl ras_unique_step ({}, []) series)
       = [] @ first_seen (filter (\<lambda>v. v \<notin> {}) (filter ras_keeps (map strip series)))"
    by (rule unique_fold) (simp add: ras_unique_step_def ras_keeps_def)
  then show ?thesis by (simp add: ras_unique_ordered_def)
qed

lemma distinct_tiv_unique_ordered: "distinct (tiv_unique_ordered series)"
  by (simp add: tiv_unique_ordered_eq distinct_first_seen)

lemma set_tiv_unique_ordered:
  "set (tiv_unique_ordered series) = {v \<in> strip ` set series. tiv_keeps v}"
  by (auto simp: tiv_unique_ordered_eq set_first_seen)

text \<open>
  Claim C8, amended. For every list of label strings, both \<^verbatim>\<open>unique_ordered\<close> functions
  return the trimmed labels they keep, duplicates removed and first-seen order preserved;
  the results are duplicate-free and hold exactly the kept labels.
  \<^verbatim>\<open>tiv_module.unique_ordered\<close> keeps a trimmed label that is not empty and is not
  \<^verbatim>\<open>nan\<close> or \<^verbatim>\<open>none\<close> in any letter case; \<^verbatim>\<open>ras_module.unique_ordered\<close> keeps every
  trimmed label that is not empty.
\<close>

theorem unique_ordered_first_seen:
  "tiv_unique_ordered series = first_seen (filter tiv_keeps (map strip series))
   \<and> ras_unique_ordered series = first_seen (filter ras_keeps (map strip series))
   \<and> distinct (tiv_unique_ordered series)
   \<and> distinct (ras_unique_ordered series)
   \<and> set (tiv_unique_ordered series) = {v \<in> strip ` set series. tiv_keeps v}
   \<and> set (ras_unique_ordered series) = {v \<in> strip ` set series. ras_keeps v}"
  by (auto simp: tiv_unique_ordered_eq ras_unique_ordered_eq distinct_first_seen set_first_seen)

text \<open>The spec's example, for both functions, and one with placeholders and blanks.\<close>

theorem unique_ordered_first_seen_witness:
  "tiv_unique_ordered [''L2'', ''L1'', ''L2'', '''', ''L1''] = [''L2'', ''L1'']
   \<and> ras_unique_ordered [''L2'', ''L1'', ''L2'', '''', ''L1''] = [''L2'', ''L1'']
   \<and> first_seen (filter tiv_keeps (map strip [''L2'', ''L1'', ''L2'', '''', ''L1''])) = [''L2'', ''L1'']
   \<and> first_seen (filter ras_keeps (map strip [''L2'', ''L1'', ''L2'', '''', ''L1''])) = [''L2'', ''L1'']
   \<and> tiv_unique_ordered ['' nan'', ''None'', ''b '', ''a'', ''b''] = [''b'', ''a'']"
proof -
  have t: "tiv_unique_ordered [''L2'', ''L1'', ''L2'', '''', ''L1''] = [''L2'', ''L1'']"
    by code_simp
  have r: "ras_unique_ordered [''L2'', ''L1'', ''L2'', '''', ''L1''] = [''L2'', ''L1'']"
    by code_simp
  have n: "tiv_unique_ordered ['' nan'', ''None'', ''b '', ''a'', ''b''] = [''b'', ''a'']"
    by code_simp
  note u = unique_ordered_first_seen [of "[''L2'', ''L1'', ''L2'', '''', ''L1'']"]
  have a: "first_seen (filter tiv_keeps (map strip [''L2'', ''L1'', ''L2'', '''', ''L1''])) = [''L2'', ''L1'']"
    using t unfolding u [THEN conjunct1] .
  have b: "first_seen (filter ras_keeps (map strip [''L2'', ''L1'', ''L2'', '''', ''L1''])) = [''L2'', ''L1'']"
    using r unfolding u [THEN conjunct2, THEN conjunct1] .
  from t r a b n show ?thesis by (intro conjI)
qed

text \<open>
  Claim C8 as stated also covers \<^verbatim>\<open>ras_module.unique_ordered\<close>, which does not exclude
  \<^verbatim>\<open>nan\<close>: the label is returned. (\<^verbatim>\<open>load_ras_sheet\<close> blanks such labels before the
  function sees them.)
\<close>

theorem ras_unique_ordered_nan_counterexample:
  "ras_unique_ordered [''nan''] = [''nan'']
   \<and> tiv_unique_ordered [''nan''] = []"
  by code_simp















lemma columns_rename: "columns (rename_columns f df) = map f (columns df)"
  by (simp add: columns_def rename_columns_def)










lemma columns_map_column: "columns (map_column c f df) = columns df"
  by (induction df) (auto simp: map_column_def columns_def)


lemma columns_ensure_column: "set (columns (ensure_column df c)) = insert c (set (columns df))"
  by (auto simp: ensure_column_def columns_def)

lemma frame_len_ensure_column: "frame_len (ensure_column df c) = frame_len df"
  by (cases df) (simp_all add: ensure_column_def frame_len_def columns_def)


lemma in_columns_map_of: "c \<in> set (columns df) \<longleftrightarrow> map_of df c \<noteq> None"
  by (simp add: columns_def map_of_eq_None_iff)



lemma fold_ensure_len: "frame_len (foldl ensure_column d cs) = frame_len d"
  by (induction cs arbitrary: d) (simp_all add: frame_len_ensure_column)






lemma count_ensure_column:
  "count_list (columns (ensure_column d a)) c
   = (if c = a \<and> a \<notin> set (columns d) then 1 else count_list (columns d) c)"
  by (simp add: ensure_column_def columns_def)

lemma fold_ensure_count:
  "count_list (columns (foldl ensure_column d cs)) c
   = (if c \<in> set cs \<and> c \<notin> set (columns d) then 1 else count_list (columns d) c)"
proof (induction cs arbitrary: d)
  case Nil
  then show ?case by simp
next
  case (Cons a cs)
  show ?case
    unfolding foldl_Cons Cons.IH
    by (auto simp: count_ensure_column columns_ensure_column)
qed

lemma repeated_map_column:
  "repeated_header (map_column c f d) c' = repeated_header d c'"
  by (simp add: repeated_header_def columns_map_column)


lemma ras_statements_label:
  assumes "\<exists>c\<in>set [COL_LOC, COL_COV, COL_ENT, COL_ADDR]. repeated_header d c"
  shows "and_then (text_column py d COL_LOC) (\<lambda>df3.
         and_then (text_column py df3 COL_COV) (\<lambda>df4.
         and_then (text_column py df4 COL_ENT) (\<lambda>df5.
         and_then (text_column py df5 COL_ADDR) f)))
       = Inl AttributeError"
  using assms
  by (auto simp: and_then_def text_column_def repeated_map_column)

lemma ras_statements_total:
  assumes "\<forall>c\<in>set [COL_LOC, COL_COV, COL_ENT, COL_ADDR]. \<not> repeated_header d c"
    and "repeated_header d COL_ROW \<or> repeated_header d COL_COL"
  shows "and_then (text_column py d COL_LOC) (\<lambda>df3.
         and_then (text_column py df3 COL_COV) (\<lambda>df4.
         and_then (text_column py df4 COL_ENT) (\<lambda>df5.
         and_then (text_column py df5 COL_ADDR) (\<lambda>df6.
         and_then (numeric_column py df6 COL_ROW) (\<lambda>df7.
         and_then (numeric_column py df7 COL_COL) f)))))
       = Inl TypeError"
  using assms
  by (auto simp: and_then_def text_column_def numeric_column_def repeated_map_column)

lemma ras_repeated_after_ensure:
  "repeated_header (foldl ensure_column (rename_columns strip df) cs) c
   \<longleftrightarrow> 1 < count_list (map strip (columns df)) c"
  by (simp add: repeated_header_def fold_ensure_count columns_rename)

text \<open>
  \<^verbatim>\<open>load_ras_sheet\<close> on a sheet with a repeated header: a repeated label header stops
  it with \<^verbatim>\<open>AttributeError\<close>; failing that, a repeated numeric header stops it with
  \<^verbatim>\<open>TypeError\<close>.
\<close>

lemma load_ras_sheet_repeated:
  assumes sheet: "first_sheet wb RAS_SHEETS = Some df"
  shows "(\<exists>c\<in>set [COL_LOC, COL_COV, COL_ENT, COL_ADDR]. 1 < count_list (map strip (columns df)) c)
           \<Longrightarrow> load_ras_sheet py wb = Inl AttributeError"
    and "(\<forall>c\<in>set [COL_LOC, COL_COV, COL_ENT, COL_ADDR]. count_list (map strip (columns df)) c \<le> 1)
           \<Longrightarrow> 1 < count_list (map strip (columns df)) COL_ROW
               \<or> 1 < count_list (map strip (columns df)) COL_COL
           \<Longrightarrow> load_ras_sheet py wb = Inl TypeError"
proof -
  let ?six = "[COL_LOC, COL_COV, COL_ROW, COL_COL, COL_ENT, COL_ADDR]"
  let ?d = "foldl ensure_column (rename_columns strip df) ?six"
  have start: "load_ras_sheet py wb
      = and_then (text_column py ?d COL_LOC) (\<lambda>df3.
         and_then (text_column py df3 COL_COV) (\<lambda>df4.
         and_then (text_column py df4 COL_ENT) (\<lambda>df5.
         and_then (text_column py df5 COL_ADDR) (\<lambda>df6.
         and_then (numeric_column py df6 COL_ROW) (\<lambda>df7.
         and_then (numeric_column py df7 COL_COL) (\<lambda>df8.
           Inr (foldl (\<lambda>df c. map_column c (blank_nan py) df) df8
                  [COL_LOC, COL_COV, COL_ENT, COL_ADDR])))))))"
    using sheet
    by (simp add: load_ras_sheet_def read_sheet_any_def and_then_def Let_def
        del: first_sheet.simps foldl.simps)
  {
    assume "\<exists>c\<in>set [COL_LOC, COL_COV, COL_ENT, COL_ADDR]. 1 < count_list (map strip (columns df)) c"
    then have "\<exists>c\<in>set [COL_LOC, COL_COV, COL_ENT, COL_ADDR]. repeated_header ?d c"
      unfolding ras_repeated_after_ensure .
    then show "load_ras_sheet py wb = Inl AttributeError"
      unfolding start by (rule ras_statements_label)
  }
  {
    assume "\<forall>c\<in>set [COL_LOC, COL_COV, COL_ENT, COL_ADDR]. count_list (map strip (columns df)) c \<le> 1"
      and "1 < count_list (map strip (columns df)) COL_ROW
         \<or> 1 < count_list (map strip (columns df)) COL_COL"
    then have "\<forall>c\<in>set [COL_LOC, COL_COV, COL_ENT, COL_ADDR]. \<not> repeated_header ?d c"
      and "repeated_header ?d COL_ROW \<or> repeated_header ?d COL_COL"
      unfolding ras_repeated_after_ensure by (simp_all add: not_less)
    then show "load_ras_sheet py wb = Inl TypeError"
      unfolding start by (rule ras_statements_total)
  }
qed

lemma load_ras_sheet_repeated_examples:
  "load_ras_sheet py_blank repeated_label_workbook = Inl AttributeError
   \<and> load_ras_sheet py_blank repeated_total_workbook = Inl TypeError"
proof -
  let ?L = "[(''Loc #'', [Text ''1'']), ('' Loc #'', [Text ''2'']),
             (''Coverage/Expense'', [Text ''Fire'']),
             (''Premium Total'', [Number 100]), (''Total'', [Number 100])]"
  let ?T = "[(''Loc #'', [Text ''1'']), (''Coverage/Expense'', [Text ''Fire'']),
             (''Premium Total'', [Number 100]),
             (''Total'', [Number 100]), (''Total '', [Number 100])]"
  have sL: "first_sheet repeated_label_workbook RAS_SHEETS = Some ?L" by code_simp
  have sT: "first_sheet repeated_total_workbook RAS_SHEETS = Some ?T" by code_simp
  have "1 < count_list (map strip (columns ?L)) COL_LOC" by code_simp
  then have "\<exists>c\<in>set [COL_LOC, COL_COV, COL_ENT, COL_ADDR]. 1 < count_list (map strip (columns ?L)) c"
    by simp
  from load_ras_sheet_repeated(1) [OF sL this]
  have a: "load_ras_sheet py_blank repeated_label_workbook = Inl AttributeError" .
  have "list_all (\<lambda>c. count_list (map strip (columns ?T)) c \<le> 1)
          [COL_LOC, COL_COV, COL_ENT, COL_ADDR]"
    by code_simp
  then have l: "\<forall>c\<in>set [COL_LOC, COL_COV, COL_ENT, COL_ADDR]. count_list (map strip (columns ?T)) c \<le> 1"
    by (simp only: list_all_iff)
  have "1 < count_list (map strip (columns ?T)) COL_COL" by code_simp
  then have "1 < count_list (map strip (columns ?T)) COL_ROW
           \<or> 1 < count_list (map strip (columns ?T)) COL_COL" ..
  from load_ras_sheet_repeated(2) [OF sT l this]
  have "load_ras_sheet py_blank repeated_total_workbook = Inl TypeError" .
  with a show ?thesis ..
qed





lemma map_of_dict_set:
  "map_of (dict_set d k v) k' = (if k' = k then Some v else map_of d k')"
proof (cases "map_of d k")
  case None
  then show ?thesis by (auto simp: dict_set_def map_add_def split: option.splits)
next
  case (Some a)
  have "map_of (map (\<lambda>kv. if fst kv = k then (k, v) else kv) d) k'
        = (if k' = k then map_option (\<lambda>_. v) (map_of d k) else map_of d k')"
    by (induction d) auto
  with Some show ?thesis by (simp add: dict_set_def)
qed

lemma map_of_map_key:
  "map_of (map (\<lambda>k. (k, f k)) ks) k = (if k \<in> set ks then Some (f k) else None)"
  by (induction ks) auto

lemma dict_get_map_key:
  "dict_get (map (\<lambda>k. (k, f k)) ks) k d = (if k \<in> set ks then f k else d)"
  by (simp add: dict_get_def map_of_map_key)

lemma dict_get_setdefault:
  "dict_get (dict_setdefault d l v) k v = dict_get d k v"
  by (auto simp: dict_get_def dict_setdefault_def map_add_def split: option.splits)

lemma dict_get_fold_setdefault:
  "dict_get (foldl (\<lambda>d l. dict_setdefault d l v) d ls) k v = dict_get d k v"
  by (induction ls arbitrary: d) (simp_all add: dict_get_setdefault)

lemma dict_get_zip_nth:
  "distinct ks \<Longrightarrow> length vs = length ks \<Longrightarrow> i < length ks \<Longrightarrow> dict_get (zip ks vs) (ks ! i) d = vs ! i"
proof -
  assume a: "distinct ks" "length vs = length ks" "i < length ks"
  then have "map_of (zip ks vs) (ks ! i) = Some (vs ! i)"
    by (simp add: map_of_zip_nth)
  then show ?thesis by (simp add: dict_get_def)
qed

lemma map_of_group_sum:
  "map_of (group_sum key val rows) k
   = (if k \<in> key ` set rows then Some (sum_list (map val (filter (\<lambda>r. key r = k) rows))) else None)"
  by (simp add: group_sum_def map_of_map_key)

lemma filter_none_sum:
  "k \<notin> key ` set rows \<Longrightarrow> sum_list (map val (filter (\<lambda>r. key r = k) rows)) = (0::real)"
proof -
  assume "k \<notin> key ` set rows"
  then have "filter (\<lambda>r. key r = k) rows = []" by (auto simp: filter_empty_conv)
  then show ?thesis by simp
qed

lemma dict_get_group_sum:
  "dict_get (group_sum key val rows) k 0 = sum_list (map val (filter (\<lambda>r. key r = k) rows))"
  by (simp add: dict_get_def map_of_group_sum filter_none_sum)

lemma located_filter:
  "map snd (filter (\<lambda>lr. P (fst lr) (snd lr)) (located_rows rows))
   = filter (\<lambda>r. case row_loc r of None \<Rightarrow> False | Some l \<Rightarrow> P l r) rows"
  by (induction rows) (auto simp: located_rows_def split: option.splits)

lemma located_sum:
  "sum_list (map (\<lambda>lr. row_tiv (snd lr)) (filter (\<lambda>lr. P (fst lr) (snd lr)) (located_rows rows)))
   = sum_list (map row_tiv (filter (\<lambda>r. case row_loc r of None \<Rightarrow> False | Some l \<Rightarrow> P l r) rows))"
proof -
  have "map (\<lambda>lr. row_tiv (snd lr)) xs = map row_tiv (map snd xs)" for xs :: "(string \<times> tiv_row) list"
    by simp
  then show ?thesis by (simp only: located_filter)
qed

lemma global_lookup:
  "dict_get (group_sum fst (\<lambda>lr. row_tiv (snd lr)) (located_rows rows)) l 0 = global_weight rows l"
proof -
  have "filter (\<lambda>r. case row_loc r of None \<Rightarrow> False | Some l' \<Rightarrow> l' = l) rows
        = filter (\<lambda>r. row_loc r = Some l) rows"
    by (rule filter_cong) (auto split: option.splits)
  with located_sum [of "\<lambda>l' r. l' = l" rows] show ?thesis
    by (simp add: dict_get_group_sum global_weight_def)
qed

lemma cat_lookup:
  "dict_get (group_sum (\<lambda>lr. (row_cov (snd lr), fst lr)) (\<lambda>lr. row_tiv (snd lr)) (located_rows rows)) (c, l) 0
   = cat_weight rows c l"
proof -
  have "filter (\<lambda>r. case row_loc r of None \<Rightarrow> False | Some l' \<Rightarrow> row_cov r = c \<and> l' = l) rows
        = filter (\<lambda>r. row_cov r = c \<and> row_loc r = Some l) rows"
    by (rule filter_cong) (auto split: option.splits)
  with located_sum [of "\<lambda>l' r. row_cov r = c \<and> l' = l" rows] show ?thesis
    by (simp add: dict_get_group_sum cat_weight_def)
qed

lemma cat_positive:
  "(case map_of (group_sum (\<lambda>lr. (row_cov (snd lr), fst lr)) (\<lambda>lr. row_tiv (snd lr)) (located_rows rows)) (c, l)
      of None \<Rightarrow> False | Some t \<Rightarrow> t > 0)
   \<longleftrightarrow> 0 < cat_weight rows c l"
  using cat_lookup [of rows c l]
  by (simp add: dict_get_def split: option.splits)

lemma premium_lookup:
  "dict_get (group_sum row_cov row_pre rows) c 0 = cov_premium rows c"
  by (simp add: dict_get_group_sum cov_premium_def)

lemma allocate_cong:
  assumes "\<forall>l\<in>set locs. dict_get m1 l 0 = dict_get m2 l 0"
  shows "allocate_cents_for_coverage P m1 locs = allocate_cents_for_coverage P m2 locs"
proof -
  have e: "map (\<lambda>l. dict_get m1 l 0) locs = map (\<lambda>l. dict_get m2 l 0) locs"
    using assms by simp
  show ?thesis unfolding allocate_cents_for_coverage_def e by (rule refl)
qed

lemma length_final_cents: "length (final_cents P tivs) = length tivs"
  by (simp add: final_cents_def length_alloc_cents)

lemma allocate_result:
  assumes "distinct locs"
  shows "allocate_cents_for_coverage P m locs
         = Inr (zip locs (map (\<lambda>c. real_of_int c / 100)
                  (final_cents P (map (\<lambda>l. dict_get m l 0) locs))))"
proof (cases "locs = []")
  case True
  then show ?thesis by (simp add: allocate_cents_for_coverage_def)
next
  case ne: False
  let ?tivs = "map (\<lambda>l. dict_get m l 0) locs"
  show ?thesis
  proof (cases "P \<le> 0")
    case True
    have "dict_of (map (\<lambda>l. (l, 0::real)) locs) = map (\<lambda>l. (l, 0)) locs"
      using assms by (simp add: dict_of_distinct comp_def)
    with True ne show ?thesis
      by (simp add: allocate_cents_for_coverage_def Let_def final_cents_def zip_replicate_zero)
  next
    case False
    then have pos: "0 < P" by simp
    have s: "sum_list (alloc_cents ?tivs (rint (P * 100))) = rint (P * 100)"
      using ne by (intro sum_alloc_cents) simp
    have "dict_of (zip locs (map (\<lambda>c. real_of_int c / 100) (alloc_cents ?tivs (rint (P * 100)))))
          = zip locs (map (\<lambda>c. real_of_int c / 100) (alloc_cents ?tivs (rint (P * 100))))"
      using assms by (simp add: dict_of_distinct length_alloc_cents)
    with allocate_unfold [OF pos ne, of m] s False show ?thesis
      by (simp add: Let_def final_cents_def)
  qed
qed

lemma allocate_amount:
  assumes "distinct locs" "i < length locs"
    and "allocate_cents_for_coverage P m locs = Inr alloc"
  shows "dict_get alloc (locs ! i) 0
         = real_of_int (final_cents P (map (\<lambda>l. dict_get m l 0) locs) ! i) / 100"
proof -
  let ?vals = "map (\<lambda>c. real_of_int c / 100) (final_cents P (map (\<lambda>l. dict_get m l 0) locs))"
  from assms(3) allocate_result [OF assms(1), of P m] have "alloc = zip locs ?vals" by simp
  moreover have "length ?vals = length locs" by (simp add: length_final_cents)
  ultimately show ?thesis
    using dict_get_zip_nth [OF assms(1) _ assms(2), of ?vals 0] assms(2)
    by (simp add: length_final_cents)
qed

lemma positive_share:
  assumes "0 < P" "i < length tivs" "1 \<le> weight_share tivs i * real_of_int (rint (P * 100))"
  shows "0 < final_cents P tivs ! i"
proof -
  from assms(3) have "1 \<le> \<lfloor>weight_share tivs i * real_of_int (rint (P * 100))\<rfloor>" by linarith
  with alloc_cents_nth [OF assms(2), of "rint (P * 100)"] assms(1) show ?thesis
    by (auto simp: final_cents_def)
qed

lemma map_of_mat_set_None:
  "map_of (mat_set m l c v) l' = None \<longleftrightarrow> map_of m l' = None"
  by (induction m) (auto simp: mat_set_def)

lemma mat_cell_mat_set:
  "mat_cell (mat_set m l c v) l' c'
   = (if l' = l \<and> c' = c \<and> map_of m l \<noteq> None then Some v else mat_cell m l' c')"
proof -
  have "map_of (mat_set m l c v) l'
        = (if l' = l then map_option (\<lambda>row. dict_set row c v) (map_of m l) else map_of m l')"
    by (induction m) (auto simp: mat_set_def)
  then show ?thesis
    by (auto simp: mat_cell_def map_of_dict_set split: option.splits)
qed

lemma mat_cell_write:
  "mat_cell (foldl (\<lambda>m l. mat_set m l c (v l)) m ls) l' c'
   = (if c' = c \<and> l' \<in> set ls \<and> map_of m l' \<noteq> None then Some (v l') else mat_cell m l' c')"
proof (induction ls arbitrary: m)
  case Nil
  then show ?case by simp
next
  case (Cons a ls)
  show ?case
    by (simp add: Cons.IH mat_cell_mat_set map_of_mat_set_None) (auto simp: mat_cell_def)
qed

lemma map_of_write_None:
  "map_of (foldl (\<lambda>m l. mat_set m l c (v l)) m ls) l' = None \<longleftrightarrow> map_of m l' = None"
  by (induction ls arbitrary: m) (simp_all add: map_of_mat_set_None)

lemma distinct_chosen:
  "distinct locs \<Longrightarrow> distinct (snd (choose_weights tbcl tgm locs c))"
  by (simp add: choose_weights_def Let_def cov_locs_of_def)

lemma cov_step_cell:
  assumes "distinct locs"
  shows "\<exists>mat'. cov_step tbcl tgm pbc locs mat c = Inr mat'
     \<and> (\<forall>l'. map_of mat' l' = None \<longleftrightarrow> map_of mat l' = None)
     \<and> (\<forall>l' c'. mat_cell mat' l' c'
          = (if c' = c \<and> l' \<in> set (snd (choose_weights tbcl tgm locs c)) \<and> map_of mat l' \<noteq> None
             then Some (col_amount tbcl tgm pbc locs c l') else mat_cell mat l' c'))"
proof -
  obtain tm al where ch: "choose_weights tbcl tgm locs c = (tm, al)" by (cases "choose_weights tbcl tgm locs c")
  have d: "distinct al" using distinct_chosen [OF assms, of tbcl tgm c] ch by simp
  from allocate_result [OF d, of "dict_get pbc c 0" tm]
  obtain alloc where a: "allocate_cents_for_coverage (dict_get pbc c 0) tm al = Inr alloc" by blast
  let ?m = "foldl (\<lambda>m l. mat_set m l c (dict_get alloc l 0)) mat al"
  have s: "cov_step tbcl tgm pbc locs mat c = Inr ?m"
    by (simp add: cov_step_def Let_def ch a)
  have amt: "col_amount tbcl tgm pbc locs c l = dict_get alloc l 0" for l
    by (simp add: col_amount_def ch a)
  show ?thesis
    unfolding s ch
    by (intro exI [of _ ?m]) (auto simp: mat_cell_write map_of_write_None amt)
qed

lemma cov_loop_cell:
  assumes "distinct locs"
  shows "distinct covs \<Longrightarrow>
     \<exists>mat'. cov_loop tbcl tgm pbc locs mat covs = Inr mat'
     \<and> (\<forall>l'. map_of mat' l' = None \<longleftrightarrow> map_of mat l' = None)
     \<and> (\<forall>l' c'. mat_cell mat' l' c'
          = (if c' \<in> set covs \<and> l' \<in> set (snd (choose_weights tbcl tgm locs c')) \<and> map_of mat l' \<noteq> None
             then Some (col_amount tbcl tgm pbc locs c' l') else mat_cell mat l' c'))"
proof (induction covs arbitrary: mat)
  case Nil
  then show ?case by simp
next
  case (Cons c covs)
  from cov_step_cell [OF assms, of tbcl tgm pbc mat c]
  obtain m1 where m1: "cov_step tbcl tgm pbc locs mat c = Inr m1"
    "\<forall>l'. map_of m1 l' = None \<longleftrightarrow> map_of mat l' = None"
    "\<forall>l' c'. mat_cell m1 l' c'
          = (if c' = c \<and> l' \<in> set (snd (choose_weights tbcl tgm locs c)) \<and> map_of mat l' \<noteq> None
             then Some (col_amount tbcl tgm pbc locs c l') else mat_cell mat l' c')"
    by blast
  from Cons.prems have dc: "distinct covs" and nc: "c \<notin> set covs" by simp_all
  from Cons.IH [OF dc, of m1]
  obtain m2 where m2: "cov_loop tbcl tgm pbc locs m1 covs = Inr m2"
    "\<forall>l'. map_of m2 l' = None \<longleftrightarrow> map_of m1 l' = None"
    "\<forall>l' c'. mat_cell m2 l' c'
          = (if c' \<in> set covs \<and> l' \<in> set (snd (choose_weights tbcl tgm locs c')) \<and> map_of m1 l' \<noteq> None
             then Some (col_amount tbcl tgm pbc locs c' l') else mat_cell m1 l' c')"
    by blast
  have r: "cov_loop tbcl tgm pbc locs mat (c # covs) = Inr m2" by (simp add: m1(1) m2(1))
  have k: "\<forall>l'. map_of m2 l' = None \<longleftrightarrow> map_of mat l' = None" using m1(2) m2(2) by simp
  have cells: "mat_cell m2 l' c'
          = (if c' \<in> set (c # covs) \<and> l' \<in> set (snd (choose_weights tbcl tgm locs c')) \<and> map_of mat l' \<noteq> None
             then Some (col_amount tbcl tgm pbc locs c' l') else mat_cell mat l' c')" for l' c'
    using m2(3) [rule_format, of l' c'] m1(3) [rule_format, of l' c'] m1(2) nc by auto
  from r k cells show ?case by blast
qed

lemma initial_mat:
  assumes "distinct locs" "distinct covs"
  shows "dict_of (map (\<lambda>l. (l, dict_of (map (\<lambda>c. (c, 0::real)) covs))) locs)
         = map (\<lambda>l. (l, map (\<lambda>c. (c, 0)) covs)) locs"
proof -
  have "dict_of (map (\<lambda>c. (c, 0::real)) covs) = map (\<lambda>c. (c, 0)) covs"
    using assms(2) by (simp add: dict_of_distinct comp_def)
  then show ?thesis using assms(1) by (simp add: dict_of_distinct comp_def)
qed

lemma initial_cell:
  "mat_cell (map (\<lambda>l. (l, map (\<lambda>c. (c, 0::real)) covs)) locs) l c
   = (if l \<in> set locs \<and> c \<in> set covs then Some 0 else None)"
  by (simp add: mat_cell_def map_of_map_key)

lemma initial_keys:
  "map_of (map (\<lambda>l. (l, map (\<lambda>c. (c, 0::real)) covs)) locs) l = None \<longleftrightarrow> l \<notin> set locs"
  by (simp add: map_of_map_key)

lemma cov_locs_eq:
  "cov_locs_of (group_sum (\<lambda>lr. (row_cov (snd lr), fst lr)) (\<lambda>lr. row_tiv (snd lr)) (located_rows rows))
     (tiv_locs rows) c
   = cat_locs rows c"
  by (simp add: cov_locs_of_def cat_locs_def cat_positive)

lemma distinct_tiv_locs: "distinct (tiv_locs rows)"
  by (simp add: tiv_locs_def distinct_tiv_unique_ordered)

lemma distinct_tiv_covs: "distinct (tiv_covs rows)"
  by (simp add: tiv_covs_def distinct_tiv_unique_ordered)

lemma distinct_cat_locs: "distinct (cat_locs rows c)"
  by (simp add: cat_locs_def distinct_tiv_locs)

text \<open>
  Claim C5, amended. \<^verbatim>\<open>build_tiv_matrix\<close> always returns, with the unique ordered
  locations and coverages. For each coverage: when at least two locations have a positive
  weight under that coverage, its premium is allocated over exactly these locations by
  their coverage-specific weights, and every other location keeps 0.0; otherwise the
  premium is allocated over all locations by their global weights, and then every
  location whose share of the rounded premium is at least one cent receives a positive
  amount, so the split is multi-location whenever two locations have such a share.
\<close>

theorem tiv_weight_policy:
  "\<exists>M. build_tiv_matrix rows = Inr M
     \<and> out_locs M = tiv_locs rows \<and> out_covs M = tiv_covs rows
     \<and> (\<forall>c\<in>set (tiv_covs rows).
          (2 \<le> length (cat_locs rows c) \<longrightarrow>
             (\<exists>alloc.
                allocate_cents_for_coverage (cov_premium rows c)
                  (map (\<lambda>l. (l, cat_weight rows c l)) (cat_locs rows c)) (cat_locs rows c)
                = Inr alloc
              \<and> (\<forall>l\<in>set (tiv_locs rows).
                    mat_cell (out_mat M) l c
                    = Some (if l \<in> set (cat_locs rows c) then dict_get alloc l 0 else 0))))
        \<and> (length (cat_locs rows c) < 2 \<longrightarrow>
             (\<exists>alloc.
                allocate_cents_for_coverage (cov_premium rows c)
                  (map (\<lambda>l. (l, global_weight rows l)) (tiv_locs rows)) (tiv_locs rows)
                = Inr alloc
              \<and> (\<forall>l\<in>set (tiv_locs rows). mat_cell (out_mat M) l c = Some (dict_get alloc l 0))
              \<and> (0 < cov_premium rows c \<longrightarrow>
                   (\<forall>i<length (tiv_locs rows).
                      1 \<le> weight_share (map (global_weight rows) (tiv_locs rows)) i
                            * real_of_int (rint (cov_premium rows c * 100)) \<longrightarrow>
                      0 < dict_get alloc (tiv_locs rows ! i) 0)))))"
proof -
  let ?locs = "tiv_locs rows" and ?covs = "tiv_covs rows"
  let ?tbcl = "group_sum (\<lambda>lr. (row_cov (snd lr), fst lr)) (\<lambda>lr. row_tiv (snd lr)) (located_rows rows)"
  let ?tgm = "foldl (\<lambda>d l. dict_setdefault d l 0)
                (group_sum fst (\<lambda>lr. row_tiv (snd lr)) (located_rows rows)) ?locs"
  let ?pbc = "group_sum row_cov row_pre rows"
  let ?mat0 = "map (\<lambda>l. (l, map (\<lambda>c. (c, 0::real)) ?covs)) ?locs"
  have dl: "distinct ?locs" by (rule distinct_tiv_locs)
  have dc: "distinct ?covs" by (rule distinct_tiv_covs)
  from cov_loop_cell [OF dl dc, of ?tbcl ?tgm ?pbc ?mat0]
  obtain mat where mat: "cov_loop ?tbcl ?tgm ?pbc ?locs ?mat0 ?covs = Inr mat"
    and cells: "\<And>l' c'. mat_cell mat l' c'
          = (if c' \<in> set ?covs \<and> l' \<in> set (snd (choose_weights ?tbcl ?tgm ?locs c')) \<and> map_of ?mat0 l' \<noteq> None
             then Some (col_amount ?tbcl ?tgm ?pbc ?locs c' l') else mat_cell ?mat0 l' c')"
    by blast
  define M where "M = \<lparr> out_locs = ?locs, out_covs = ?covs, out_mat = mat,
      out_row_vec = map (\<lambda>l. sum_list (map (\<lambda>c. dict_get (dict_get mat l []) c 0) ?covs)) ?locs,
      out_col_vec = map (\<lambda>c. dict_get ?pbc c 0) ?covs \<rparr>"
  have res: "build_tiv_matrix rows = Inr M"
    using mat
    by (simp add: build_tiv_matrix_def Let_def M_def tiv_locs_def [symmetric] tiv_covs_def [symmetric]
        initial_mat [OF dl dc])
  have cell: "mat_cell (out_mat M) l c
      = Some (if l \<in> set (snd (choose_weights ?tbcl ?tgm ?locs c))
              then col_amount ?tbcl ?tgm ?pbc ?locs c l else 0)"
    if "c \<in> set ?covs" "l \<in> set ?locs" for c l
    using that cells [of l c] by (simp add: M_def initial_cell initial_keys)
  have per_cov: "(2 \<le> length (cat_locs rows c) \<longrightarrow>
             (\<exists>alloc.
                allocate_cents_for_coverage (cov_premium rows c)
                  (map (\<lambda>l. (l, cat_weight rows c l)) (cat_locs rows c)) (cat_locs rows c)
                = Inr alloc
              \<and> (\<forall>l\<in>set ?locs.
                    mat_cell (out_mat M) l c
                    = Some (if l \<in> set (cat_locs rows c) then dict_get alloc l 0 else 0))))
        \<and> (length (cat_locs rows c) < 2 \<longrightarrow>
             (\<exists>alloc.
                allocate_cents_for_coverage (cov_premium rows c)
                  (map (\<lambda>l. (l, global_weight rows l)) ?locs) ?locs
                = Inr alloc
              \<and> (\<forall>l\<in>set ?locs. mat_cell (out_mat M) l c = Some (dict_get alloc l 0))
              \<and> (0 < cov_premium rows c \<longrightarrow>
                   (\<forall>i<length ?locs.
                      1 \<le> weight_share (map (global_weight rows) ?locs) i
                            * real_of_int (rint (cov_premium rows c * 100)) \<longrightarrow>
                      0 < dict_get alloc (?locs ! i) 0))))"
    if c: "c \<in> set ?covs" for c
  proof (intro conjI impI)
    assume two: "2 \<le> length (cat_locs rows c)"
    let ?cl = "cat_locs rows c"
    let ?wm = "map (\<lambda>l. (l, cat_weight rows c l)) ?cl"
    have tm: "dict_of (map (\<lambda>l. (l, dict_get ?tbcl (c, l) 0)) ?cl) = ?wm"
      using distinct_cat_locs [of rows c] by (simp add: dict_of_distinct comp_def cat_lookup)
    have ch: "choose_weights ?tbcl ?tgm ?locs c = (?wm, ?cl)"
      using two by (simp add: choose_weights_def Let_def cov_locs_eq tm)
    from allocate_result [OF distinct_cat_locs, of "cov_premium rows c" ?wm rows c]
    obtain alloc where a: "allocate_cents_for_coverage (cov_premium rows c) ?wm ?cl = Inr alloc"
      by blast
    have "col_amount ?tbcl ?tgm ?pbc ?locs c l = dict_get alloc l 0" for l
      by (simp add: col_amount_def ch premium_lookup a)
    with cell [OF c] ch have "\<forall>l\<in>set ?locs.
        mat_cell (out_mat M) l c = Some (if l \<in> set ?cl then dict_get alloc l 0 else 0)"
      by simp
    with a show "\<exists>alloc. allocate_cents_for_coverage (cov_premium rows c) ?wm ?cl = Inr alloc
        \<and> (\<forall>l\<in>set ?locs.
              mat_cell (out_mat M) l c = Some (if l \<in> set ?cl then dict_get alloc l 0 else 0))"
      by blast
  next
    assume few: "length (cat_locs rows c) < 2"
    let ?gm = "map (\<lambda>l. (l, global_weight rows l)) ?locs"
    let ?P = "cov_premium rows c"
    have ch: "choose_weights ?tbcl ?tgm ?locs c = (?tgm, ?locs)"
      using few by (simp add: choose_weights_def Let_def cov_locs_eq)
    have same: "\<forall>l\<in>set ?locs. dict_get ?tgm l 0 = dict_get ?gm l 0"
      by (simp add: dict_get_fold_setdefault global_lookup dict_get_map_key)
    from allocate_result [OF dl, of ?P ?gm]
    obtain alloc where a: "allocate_cents_for_coverage ?P ?gm ?locs = Inr alloc" by blast
    have a': "allocate_cents_for_coverage ?P ?tgm ?locs = Inr alloc"
      using allocate_cong [OF same, of ?P] a by simp
    have "col_amount ?tbcl ?tgm ?pbc ?locs c l = dict_get alloc l 0" for l
      by (simp add: col_amount_def ch premium_lookup a')
    with cell [OF c] ch have 1: "\<forall>l\<in>set ?locs. mat_cell (out_mat M) l c = Some (dict_get alloc l 0)"
      by simp
    have tivs: "map (\<lambda>l. dict_get ?gm l 0) ?locs = map (global_weight rows) ?locs"
      by (simp add: dict_get_map_key)
    have 2: "0 < ?P \<longrightarrow> (\<forall>i<length ?locs.
          1 \<le> weight_share (map (global_weight rows) ?locs) i * real_of_int (rint (?P * 100)) \<longrightarrow>
          0 < dict_get alloc (?locs ! i) 0)"
    proof (intro impI allI)
      fix i assume P: "0 < ?P" and i: "i < length ?locs"
        and sh: "1 \<le> weight_share (map (global_weight rows) ?locs) i * real_of_int (rint (?P * 100))"
      have "0 < final_cents ?P (map (global_weight rows) ?locs) ! i"
        using P i sh by (intro positive_share) simp_all
      moreover have "dict_get alloc (?locs ! i) 0
          = real_of_int (final_cents ?P (map (global_weight rows) ?locs) ! i) / 100"
        using allocate_amount [OF dl i a] by (simp only: tivs)
      ultimately show "0 < dict_get alloc (?locs ! i) 0" by simp
    qed
    from a 1 2 show "\<exists>alloc. allocate_cents_for_coverage ?P ?gm ?locs = Inr alloc
        \<and> (\<forall>l\<in>set ?locs. mat_cell (out_mat M) l c = Some (dict_get alloc l 0))
        \<and> (0 < ?P \<longrightarrow> (\<forall>i<length ?locs.
             1 \<le> weight_share (map (global_weight rows) ?locs) i * real_of_int (rint (?P * 100)) \<longrightarrow>
             0 < dict_get alloc (?locs ! i) 0))"
      by blast
  qed
  have "out_locs M = ?locs" "out_covs M = ?covs" by (simp_all add: M_def)
  with res per_cov show ?thesis by blast
qed

text \<open>
  The spec's scenario: under coverage Fire only L1 has weight, while L1 and L2 both have
  global weight; the premium 1000.00 is split 250.00 and 750.00.
\<close>

theorem tiv_weight_policy_witness:
  "build_tiv_matrix sparse_rows
     = Inr \<lparr> out_locs = [''L1'', ''L2''], out_covs = [''Fire'', ''Flood''],
             out_mat = [(''L1'', [(''Fire'', 250), (''Flood'', 125)]),
                        (''L2'', [(''Fire'', 750), (''Flood'', 375)])],
             out_row_vec = [375, 1125], out_col_vec = [1000, 500] \<rparr>
   \<and> cat_locs sparse_rows ''Fire'' = [''L1'']
   \<and> (\<exists>alloc.
         allocate_cents_for_coverage 1000 [(''L1'', 100), (''L2'', 300)] [''L1'', ''L2''] = Inr alloc
       \<and> dict_get alloc ''L1'' 0 = 250 \<and> dict_get alloc ''L2'' 0 = 750
       \<and> 0 < dict_get alloc ''L1'' 0 \<and> 0 < dict_get alloc ''L2'' 0)"
proof -
  let ?lit = "\<lparr> out_locs = [''L1'', ''L2''], out_covs = [''Fire'', ''Flood''],
             out_mat = [(''L1'', [(''Fire'', 250), (''Flood'', 125)]),
                        (''L2'', [(''Fire'', 750), (''Flood'', 375)])],
             out_row_vec = [375, 1125 :: real], out_col_vec = [1000, 500 :: real] \<rparr>"
  have b: "build_tiv_matrix sparse_rows = Inr ?lit" by code_simp
  have locs: "tiv_locs sparse_rows = [''L1'', ''L2'']" by code_simp
  have covs: "tiv_covs sparse_rows = [''Fire'', ''Flood'']" by code_simp
  have cl: "cat_locs sparse_rows ''Fire'' = [''L1'']" by code_simp
  have P: "cov_premium sparse_rows ''Fire'' = 1000" by code_simp
  have gm: "map (\<lambda>l. (l, global_weight sparse_rows l)) [''L1'', ''L2''] = [(''L1'', 100), (''L2'', 300)]"
    by code_simp
  have gw: "map (global_weight sparse_rows) [''L1'', ''L2''] = [100, 300]" by code_simp
  have sh: "1 \<le> weight_share [100, 300] 0 * real_of_int (rint (1000 * 100))"
    "1 \<le> weight_share [100, 300] 1 * real_of_int (rint (1000 * 100))"
    by (simp_all add: weight_share_def rint_def)
  from tiv_weight_policy [of sparse_rows] obtain M where
    M: "build_tiv_matrix sparse_rows = Inr M"
    and pol: "\<forall>c\<in>set (tiv_covs sparse_rows).
          length (cat_locs sparse_rows c) < 2 \<longrightarrow>
             (\<exists>alloc.
                allocate_cents_for_coverage (cov_premium sparse_rows c)
                  (map (\<lambda>l. (l, global_weight sparse_rows l)) (tiv_locs sparse_rows)) (tiv_locs sparse_rows)
                = Inr alloc
              \<and> (\<forall>l\<in>set (tiv_locs sparse_rows). mat_cell (out_mat M) l c = Some (dict_get alloc l 0))
              \<and> (0 < cov_premium sparse_rows c \<longrightarrow>
                   (\<forall>i<length (tiv_locs sparse_rows).
                      1 \<le> weight_share (map (global_weight sparse_rows) (tiv_locs sparse_rows)) i
                            * real_of_int (rint (cov_premium sparse_rows c * 100)) \<longrightarrow>
                      0 < dict_get alloc (tiv_locs sparse_rows ! i) 0)))"
    by blast
  from M b have Ml: "M = ?lit" by simp
  have fire: "''Fire'' \<in> set (tiv_covs sparse_rows)" by (simp add: covs)
  have few: "length (cat_locs sparse_rows ''Fire'') < 2" by (simp add: cl)
  note f = pol [rule_format, OF fire few, unfolded locs P gm gw]
  from f obtain alloc where
    a: "allocate_cents_for_coverage 1000 [(''L1'', 100), (''L2'', 300)] [''L1'', ''L2''] = Inr alloc"
    and c: "\<forall>l\<in>set [''L1'', ''L2'']. mat_cell (out_mat M) l ''Fire'' = Some (dict_get alloc l 0)"
    and p0: "(0::real) < 1000 \<longrightarrow> (\<forall>i<length [''L1'', ''L2''].
              1 \<le> weight_share [100, 300] i * real_of_int (rint (1000 * 100)) \<longrightarrow>
              0 < dict_get alloc ([''L1'', ''L2''] ! i) 0)"
    by blast
  have "(0::real) < 1000" by simp
  with p0 have p: "\<forall>i<length [''L1'', ''L2''].
              1 \<le> weight_share [100, 300] i * real_of_int (rint (1000 * 100)) \<longrightarrow>
              0 < dict_get alloc ([''L1'', ''L2''] ! i) 0"
    by (rule mp)
  have c1: "mat_cell (out_mat ?lit) ''L1'' ''Fire'' = Some 250"
    and c2: "mat_cell (out_mat ?lit) ''L2'' ''Fire'' = Some 750"
    by (simp_all add: mat_cell_def)
  from c c1 c2 have v: "dict_get alloc ''L1'' 0 = 250" "dict_get alloc ''L2'' 0 = 750"
    unfolding Ml by simp_all
  have i: "(0::nat) < length [''L1'', ''L2'']" "(1::nat) < length [''L1'', ''L2'']" by simp_all
  from p [rule_format, OF i(1) sh(1)] p [rule_format, OF i(2) sh(2)]
  have "0 < dict_get alloc ([''L1'', ''L2''] ! 0) 0" "0 < dict_get alloc ([''L1'', ''L2''] ! 1) 0"
    by blast+
  then have "0 < dict_get alloc ''L1'' 0" "0 < dict_get alloc ''L2'' 0" by simp_all
  with b cl a v show ?thesis by blast
qed

text \<open>
  Claim C5 as stated promises a multi-location split whenever the global weights are
  used. Here Fire has one location with positive weight, the global weights are used,
  and they are 50 and 0: the whole premium goes to L1.
\<close>

theorem tiv_single_location_counterexample:
  "build_tiv_matrix lone_rows
     = Inr \<lparr> out_locs = [''L1'', ''L2''], out_covs = [''Fire''],
             out_mat = [(''L1'', [(''Fire'', 100)]), (''L2'', [(''Fire'', 0)])],
             out_row_vec = [100, 0], out_col_vec = [100] \<rparr>
   \<and> cat_locs lone_rows ''Fire'' = [''L1'']
   \<and> map (global_weight lone_rows) [''L1'', ''L2''] = [50, 0]"
  by code_simp

end
